theory Spec2Isabelle
  imports Main "HOL-Library.AList" "HOL-Library.Multiset"
begin

text \<open>
  The content pipeline of the FinRo agents: the shared utilities (fingerprints, the
  persisted set of seen fingerprints, the classifier, the metadata generator, the article
  records and the category index) and the run of the finance agent, with the properties
  the specification states about them.  Functions of the platform and of packages
  (the MD5 digest, lower-casing, the collation, \<open>slugify\<close>) are parameters.
\<close>

section \<open>Strings\<close>

text \<open>
  A JavaScript string is a sequence of UTF-16 code units; \<open>length\<close>, \<open>slice\<close> and
  \<open>includes\<close> all work on code units.  A code unit is modelled as a natural number,
  and \<open>js\<close> turns an ASCII literal into its code units.
\<close>

type_synonym jsstring = "nat list"

definition js :: "string \<Rightarrow> jsstring" where
  "js s = map of_char s"

text \<open>\<open>s.slice(0, n)\<close> for a non-negative \<open>n\<close>.\<close>

definition slice0 :: "nat \<Rightarrow> 'a list \<Rightarrow> 'a list" where
  "slice0 n s = take n s"

text \<open>The code units matched by the regular expression class \<open>\s\<close>.\<close>

definition is_space :: "nat \<Rightarrow> bool" where
  "is_space c \<longleftrightarrow>
     c = 9 \<or> c = 10 \<or> c = 11 \<or> c = 12 \<or> c = 13 \<or> c = 32 \<or> c = 160 \<or> c = 5760 \<or>
     (8192 \<le> c \<and> c \<le> 8202) \<or> c = 8232 \<or> c = 8233 \<or> c = 8239 \<or> c = 8287 \<or>
     c = 12288 \<or> c = 65279"

text \<open>
  \<open>s.split(/\s+/)\<close>: the pieces between the maximal runs of white space.  A run at the
  start or at the end of the string leaves an empty piece there, and the empty string
  splits into one empty piece.  \<open>split_from cur s\<close> carries the piece read so far
  (reversed) in \<open>cur\<close>.
\<close>

function split_from :: "jsstring \<Rightarrow> jsstring \<Rightarrow> jsstring list" where
  "split_from cur [] = [rev cur]"
| "split_from cur (c # cs) =
     (if is_space c then rev cur # split_from [] (dropWhile is_space cs)
      else split_from (c # cur) cs)"
  by pat_completeness auto
termination
  by (relation "measure (\<lambda>(cur, s). length s)")
     (auto simp: length_dropWhile_le less_Suc_eq_le)

definition split_ws :: "jsstring \<Rightarrow> jsstring list" where
  "split_ws s = split_from [] s"

text \<open>\<open>[...new Set(xs)]\<close>: the elements of \<open>xs\<close>, each kept at its first occurrence.\<close>

fun uniq_from :: "'a list \<Rightarrow> 'a list \<Rightarrow> 'a list" where
  "uniq_from acc [] = acc"
| "uniq_from acc (x # xs) = uniq_from (if x \<in> set acc then acc else acc @ [x]) xs"

definition new_Set :: "'a list \<Rightarrow> 'a list" where
  "new_Set xs = uniq_from [] xs"

section \<open>Articles and their metadata\<close>

text \<open>
  The article object built by an agent's \<open>run\<close>.  The four derived fields are absent
  (\<open>None\<close>) until \<open>generateMeta\<close> assigns them; \<open>subcategoryKeywords\<close> and \<open>rating\<close>
  may be absent, as the code's \<open>|| []\<close> and \<open>if (article.rating)\<close> allow.  The record is
  extensible: fields that only some agents add live in its extension.
\<close>

record article =
  title :: jsstring
  slug :: jsstring
  url :: jsstring
  category :: jsstring
  subcategory :: jsstring
  subcategoryKeywords :: "jsstring list option"
  published :: jsstring
  summary :: jsstring
  contentHtml :: jsstring
  sourceName :: jsstring
  author :: jsstring
  rating :: "jsstring option"
  metaTitle :: "jsstring option"
  metaDescription :: "jsstring option"
  metaKeywords :: "jsstring list option"
  readingTime :: "nat option"

definition ellipsis :: jsstring where
  "ellipsis = js ''...''"

definition site_suffix :: jsstring where
  "site_suffix = js '' | FinRo.ro''"

text \<open>\<open>a || b\<close> on strings: the empty string is falsy.\<close>

definition or_else :: "jsstring \<Rightarrow> jsstring \<Rightarrow> jsstring" where
  "or_else a b = (if a = [] then b else a)"

definition generateMeta :: "'a article_scheme \<Rightarrow> jsstring list \<Rightarrow> 'a article_scheme" where
  "generateMeta article baseKeywords =
     (let article = article\<lparr>metaTitle := Some
            ((if length (title article) > 60
              then slice0 57 (title article) @ ellipsis
              else title article) @ site_suffix)\<rparr>;
          desc = or_else (summary article) (title article);
          article = article\<lparr>metaDescription := Some
            (if length desc > 155 then slice0 152 desc @ ellipsis else desc)\<rparr>;
          catKw = slice0 4 (case subcategoryKeywords article of None \<Rightarrow> [] | Some ks \<Rightarrow> ks);
          article = article\<lparr>metaKeywords := Some (new_Set (baseKeywords @ catKw))\<rparr>;
          words = length (split_ws (summary article @ js '' '' @ contentHtml article));
          article = article\<lparr>readingTime := Some (max 2 (words div 200))\<rparr>
      in article)"

text \<open>
  The JavaScript function assigns to the object it is given and returns that reference.
  With the objects in a store, addressed by reference, that is:
\<close>

type_synonym 'a store = "nat \<Rightarrow> 'a article_scheme"

definition generateMeta_store ::
    "'a store \<Rightarrow> nat \<Rightarrow> jsstring list \<Rightarrow> 'a store \<times> nat" where
  "generateMeta_store h r baseKeywords = (h(r := generateMeta (h r) baseKeywords), r)"

text \<open>
  The reading time as the specification words it: the words of the summary directly
  followed by the body text.
\<close>

definition readingTime_of_concatenation :: "'a article_scheme \<Rightarrow> nat" where
  "readingTime_of_concatenation article =
     max 2 (length (split_ws (summary article @ contentHtml article)) div 200)"

subsection \<open>Example articles\<close>

text \<open>
  An article with a title of 61 characters, and one with a summary of 200 words and a body
  of 400 words.
\<close>

definition long_title_article :: article where
  "long_title_article =
     \<lparr>title = replicate 61 84, slug = js ''t'', url = js ''https://example.ro/a'',
      category = js ''finante'', subcategory = js ''general'', subcategoryKeywords = None,
      published = js ''2025-11-03T07:00:00.000Z'', summary = [],
      contentHtml = [], sourceName = js ''BNR'', author = js ''Echipa FinRo'', rating = None,
      metaTitle = None, metaDescription = None, metaKeywords = None, readingTime = None\<rparr>"

definition boundary_article :: article where
  "boundary_article =
     \<lparr>title = js ''t'', slug = js ''t'', url = js ''https://example.ro/a'',
      category = js ''finante'', subcategory = js ''general'', subcategoryKeywords = None,
      published = js ''2025-11-03T07:00:00.000Z'',
      summary = js ''w'' @ concat (replicate 199 (js '' w'')),
      contentHtml = js ''w'' @ concat (replicate 399 (js '' w'')),
      sourceName = js ''BNR'', author = js ''Echipa FinRo'', rating = None,
      metaTitle = None, metaDescription = None, metaKeywords = None, readingTime = None\<rparr>"

section \<open>Fingerprints\<close>

text \<open>
  \<open>crypto.createHash("md5").update(url).digest("hex")\<close> is the platform's MD5 digest
  of the string, written as hexadecimal digits; it is not code of this repository and
  is a parameter \<open>md5_hex\<close> here.
\<close>

definition hashUrl :: "(jsstring \<Rightarrow> jsstring) \<Rightarrow> jsstring \<Rightarrow> jsstring" where
  "hashUrl md5_hex u = slice0 12 (md5_hex u)"

definition is_hex_digit :: "nat \<Rightarrow> bool" where
  "is_hex_digit c \<longleftrightarrow> (48 \<le> c \<and> c \<le> 57) \<or> (97 \<le> c \<and> c \<le> 102)"

text \<open>
  A stand-in for the digest that is right at the two URLs used in the examples below
  (the first is the URL of the specification's scenario).
\<close>

definition example_digest :: "jsstring \<Rightarrow> jsstring" where
  "example_digest u =
     (if u = js ''https://example.ro/a'' then js ''66389231b7e48671889ea8e3bc825226''
      else if u = js ''https://example.ro/b'' then js ''08b7f9e91ac9b0319500c709eee05057''
      else replicate 32 48)"

section \<open>Classification\<close>

text \<open>\<open>s.includes(t)\<close>: \<open>t\<close> occurs in \<open>s\<close> as a run of consecutive code units.\<close>

definition startsWith :: "'a list \<Rightarrow> 'a list \<Rightarrow> bool" where
  "startsWith s t \<longleftrightarrow> take (length t) s = t"

fun js_includes :: "'a list \<Rightarrow> 'a list \<Rightarrow> bool" where
  "js_includes [] t \<longleftrightarrow> t = []"
| "js_includes (c # cs) t \<longleftrightarrow> startsWith (c # cs) t \<or> js_includes cs t"

text \<open>
  \<open>xs.sort(cmp)\<close> for a comparison function that is consistent: the sort is stable, so
  it is the insertion sort that puts an element before the first later element \<open>y\<close>
  with \<open>cmp x y \<le> 0\<close>.
\<close>

fun insert_by :: "('a \<Rightarrow> 'a \<Rightarrow> int) \<Rightarrow> 'a \<Rightarrow> 'a list \<Rightarrow> 'a list" where
  "insert_by cmp x [] = [x]"
| "insert_by cmp x (y # ys) = (if cmp x y \<le> 0 then x # y # ys else y # insert_by cmp x ys)"

definition sort_by :: "('a \<Rightarrow> 'a \<Rightarrow> int) \<Rightarrow> 'a list \<Rightarrow> 'a list" where
  "sort_by cmp xs = foldr (insert_by cmp) xs []"

text \<open>
  An object whose own property names are strings is the list of its properties in the
  order of their creation, each name once.  A name is an array index when it is the
  decimal form, without a leading zero, of an integer up to \<open>2^32 - 2\<close>.
\<close>

definition decimal_value :: "jsstring \<Rightarrow> nat" where
  "decimal_value k = foldl (\<lambda>n c. 10 * n + (c - 48)) 0 k"

definition array_index :: "jsstring \<Rightarrow> nat option" where
  "array_index k =
     (if k \<noteq> [] \<and> list_all (\<lambda>c. 48 \<le> c \<and> c \<le> 57) k \<and> (hd k \<noteq> 48 \<or> k = [48])
         \<and> decimal_value k \<le> 4294967294
      then Some (decimal_value k) else None)"

text \<open>
  \<open>Object.entries(o)\<close>: the properties whose name is an array index come first, in
  ascending order of the index; the others follow in the order of their creation.
\<close>

definition Object_entries :: "(jsstring \<times> 'v) list \<Rightarrow> (jsstring \<times> 'v) list" where
  "Object_entries ob =
     sort_key (\<lambda>kv. the (array_index (fst kv))) (filter (\<lambda>kv. array_index (fst kv) \<noteq> None) ob)
     @ filter (\<lambda>kv. array_index (fst kv) = None) ob"

text \<open>
  \<open>o[k] = v\<close> for a number \<open>v\<close>, on an object made by \<open>{}\<close>: the property is set where it
  stands or created last.  The name \<open>__proto__\<close> is the accessor of \<open>Object.prototype\<close>,
  whose setter ignores a value that is not an object: no property is created.
\<close>

definition obj_set :: "(jsstring \<times> 'v) list \<Rightarrow> jsstring \<Rightarrow> 'v \<Rightarrow> (jsstring \<times> 'v) list" where
  "obj_set ob k v = (if k = js ''__proto__'' then ob else AList.update k v ob)"

text \<open>
  The taxonomy is an object from labels to keyword lists, its labels in the order of
  their declaration.  \<open>String.prototype.toLowerCase\<close> is the platform's and is the
  parameter \<open>lower\<close>.
\<close>

type_synonym taxonomy = "(jsstring \<times> jsstring list) list"

definition keyword_score :: "(jsstring \<Rightarrow> jsstring) \<Rightarrow> jsstring \<Rightarrow> jsstring list \<Rightarrow> int" where
  "keyword_score lower low keywords = int (length (filter (\<lambda>kw. js_includes low (lower kw)) keywords))"

definition detectSubcategory :: "(jsstring \<Rightarrow> jsstring) \<Rightarrow> jsstring \<Rightarrow> taxonomy \<Rightarrow> jsstring" where
  "detectSubcategory lower text subcategories =
     (let low = lower text;
          scores = foldl (\<lambda>scores (cat, keywords).
                            obj_set scores cat (keyword_score lower low keywords))
                     [] (Object_entries subcategories)
      in case sort_by (\<lambda>a b. snd b - snd a) (Object_entries scores) of
           [] \<Rightarrow> js ''general''
         | best # _ \<Rightarrow> if snd best > 0 then fst best else js ''general'')"

text \<open>
  A model of \<open>toLowerCase\<close> on the letters of Basic Latin, Latin-1 and Romanian; other
  code units are left as they are.
\<close>

definition lower_unit :: "nat \<Rightarrow> nat" where
  "lower_unit c =
     (if 65 \<le> c \<and> c \<le> 90 then c + 32
      else if 192 \<le> c \<and> c \<le> 222 \<and> c \<noteq> 215 then c + 32
      else if c = 258 \<or> c = 350 \<or> c = 354 \<or> c = 536 \<or> c = 538 then c + 1
      else c)"

definition toLowerCase :: "jsstring \<Rightarrow> jsstring" where
  "toLowerCase s = map lower_unit s"

text \<open>The taxonomy and the text of the specification's scenario.\<close>

definition example_taxonomy :: taxonomy where
  "example_taxonomy =
     [(js ''credite'', [js ''credit'', js ''dob'' @ [226] @ js ''nd'' @ [259]]),
      (js ''taxe'', [js ''ANAF'', js ''TVA''])]"

definition example_text :: jsstring where
  "example_text =
     js ''BNR anun'' @ [539, 259] @ js '' o nou'' @ [259] @ js '' dob'' @ [226] @ js ''nd'' @ [259]
       @ js '' de referin'' @ [539, 259]"

text \<open>
  Two taxonomies whose labels are not all ordinary names: one declares the label "b"
  before the label "1", the other has the one label \<open>__proto__\<close> (as an object read from
  JSON can).
\<close>

definition numbered_taxonomy :: taxonomy where
  "numbered_taxonomy = [(js ''b'', [js ''x'']), (js ''1'', [js ''x''])]"

definition proto_taxonomy :: taxonomy where
  "proto_taxonomy = [(js ''__proto__'', [js ''x''])]"

section \<open>Persisted files\<close>

text \<open>
  The values \<open>JSON.parse\<close> returns.  The numbers in the files of this program are
  integers (\<open>reading_time\<close>, \<open>total\<close>).
\<close>

datatype json =
    JNull
  | JBool bool
  | JNum int
  | JStr jsstring
  | JArr "json list"
  | JObj "(jsstring \<times> json) list"

text \<open>
  A file is modelled by what \<open>JSON.parse(fs.readFileSync(file, "utf-8"))\<close> does with it:
  it raises (\<open>Unparsable\<close>) or returns a value.  Writing \<open>JSON.stringify(v)\<close> and parsing
  the file again gives \<open>v\<close> back.  A directory lists its files in the order of
  \<open>fs.readdirSync\<close>; writing a file replaces it where it stands or adds it at the end.
\<close>

datatype jsonfile = Unparsable | Parsed json

type_synonym dir = "(jsstring \<times> jsonfile) list"

definition writeFileSync :: "(jsstring \<times> 'a) list \<Rightarrow> jsstring \<Rightarrow> 'a \<Rightarrow> (jsstring \<times> 'a) list" where
  "writeFileSync d f c = AList.update f c d"

datatype error = TypeError

text \<open>
  \<open>v.k\<close> for one of the property names this program reads (\<open>hashes\<close>, \<open>category\<close>,
  \<open>published\<close>): a TypeError on \<open>null\<close>, the member of an object, and \<open>undefined\<close>
  (\<open>None\<close>) on every other value.
\<close>

fun get_prop :: "json \<Rightarrow> jsstring \<Rightarrow> error + json option" where
  "get_prop JNull k = Inl TypeError"
| "get_prop (JObj fs) k = Inr (map_of fs k)"
| "get_prop (JBool b) k = Inr None"
| "get_prop (JNum n) k = Inr None"
| "get_prop (JStr s) k = Inr None"
| "get_prop (JArr xs) k = Inr None"

fun truthy :: "json \<Rightarrow> bool" where
  "truthy JNull \<longleftrightarrow> False"
| "truthy (JBool b) \<longleftrightarrow> b"
| "truthy (JNum n) \<longleftrightarrow> n \<noteq> 0"
| "truthy (JStr s) \<longleftrightarrow> s \<noteq> []"
| "truthy (JArr xs) \<longleftrightarrow> True"
| "truthy (JObj fs) \<longleftrightarrow> True"

subsection \<open>The set of seen fingerprints\<close>

text \<open>
  A \<open>Set\<close> is the list of its elements in insertion order.  Primitive values are equal
  when they are the same value; every parsed array or object is an object of its own.
\<close>

fun is_reference :: "json \<Rightarrow> bool" where
  "is_reference (JArr xs) \<longleftrightarrow> True"
| "is_reference (JObj fs) \<longleftrightarrow> True"
| "is_reference v \<longleftrightarrow> False"

definition Set_has :: "json list \<Rightarrow> json \<Rightarrow> bool" where
  "Set_has s v \<longleftrightarrow> \<not> is_reference v \<and> v \<in> set s"

definition Set_add :: "json list \<Rightarrow> json \<Rightarrow> json list" where
  "Set_add s v = (if Set_has s v then s else s @ [v])"

text \<open>What iterating over a string yields: its code points, a surrogate pair being one.\<close>

fun code_points :: "jsstring \<Rightarrow> jsstring list" where
  "code_points (c # d # cs) =
     (if 55296 \<le> c \<and> c \<le> 56319 \<and> 56320 \<le> d \<and> d \<le> 57343
      then [c, d] # code_points cs else [c] # code_points (d # cs))"
| "code_points [c] = [[c]]"
| "code_points [] = []"

text \<open>\<open>new Set(v)\<close>: a TypeError unless \<open>v\<close> is iterable (an array or a string).\<close>

fun new_Set_of :: "json \<Rightarrow> error + json list" where
  "new_Set_of (JArr xs) = Inr (foldl Set_add [] xs)"
| "new_Set_of (JStr s) = Inr (foldl Set_add [] (map JStr (code_points s)))"
| "new_Set_of v = Inl TypeError"

text \<open>The body of the \<open>try\<close> in \<open>loadSeen\<close>, on the parsed file.\<close>

definition loadSeen_try :: "json \<Rightarrow> error + json list" where
  "loadSeen_try data =
     (case get_prop data (js ''hashes'') of
        Inl e \<Rightarrow> Inl e
      | Inr h \<Rightarrow> new_Set_of (case h of None \<Rightarrow> JArr []
                              | Some v \<Rightarrow> if truthy v then v else JArr []))"

definition loadSeen :: "dir \<Rightarrow> jsstring \<Rightarrow> json list" where
  "loadSeen d filename =
     (case map_of d filename of
        None \<Rightarrow> []
      | Some Unparsable \<Rightarrow> []
      | Some (Parsed data) \<Rightarrow> (case loadSeen_try data of Inl e \<Rightarrow> [] | Inr s \<Rightarrow> s))"

text \<open>\<open>now\<close> is what \<open>new Date().toISOString()\<close> returns at the call.\<close>

definition saveSeen :: "jsstring \<Rightarrow> dir \<Rightarrow> jsstring \<Rightarrow> json list \<Rightarrow> dir" where
  "saveSeen now d filename hashes =
     writeFileSync d filename
       (Parsed (JObj [(js ''hashes'', JArr hashes), (js ''updated'', JStr now)]))"

subsection \<open>Article records\<close>

text \<open>\<open>JSON.stringify\<close> leaves out a property whose value is \<open>undefined\<close>.\<close>

definition opt_prop :: "jsstring \<Rightarrow> json option \<Rightarrow> (jsstring \<times> json) list" where
  "opt_prop k v = (case v of None \<Rightarrow> [] | Some x \<Rightarrow> [(k, x)])"

definition article_file :: "jsstring \<Rightarrow> jsstring" where
  "article_file hashId = js ''article_'' @ hashId @ js ''.json''"

definition article_meta :: "'a article_scheme \<Rightarrow> jsstring \<Rightarrow> json" where
  "article_meta article hashId = JObj
     ([(js ''title'', JStr (title article)),
       (js ''slug'', JStr (slug article)),
       (js ''category'', JStr (category article)),
       (js ''subcategory'', JStr (subcategory article))]
      @ opt_prop (js ''meta_title'') (map_option JStr (metaTitle article))
      @ opt_prop (js ''meta_description'') (map_option JStr (metaDescription article))
      @ opt_prop (js ''meta_keywords'') (map_option (\<lambda>ks. JArr (map JStr ks)) (metaKeywords article))
      @ [(js ''author'', JStr (or_else (author article) (js ''Echipa FinRo''))),
         (js ''published'', JStr (published article))]
      @ opt_prop (js ''reading_time'') (map_option (\<lambda>n. JNum (int n)) (readingTime article))
      @ [(js ''source'', JStr (sourceName article)),
         (js ''hash_id'', JStr hashId),
         (js ''url'', JStr (js ''/'' @ category article @ js ''/'' @ slug article))]
      @ (case rating article of None \<Rightarrow> [] | Some r \<Rightarrow> if r = [] then [] else [(js ''rating'', JStr r)]))"

definition saveArticleMeta :: "dir \<Rightarrow> 'a article_scheme \<Rightarrow> jsstring \<Rightarrow> dir" where
  "saveArticleMeta d article hashId =
     writeFileSync d (article_file hashId) (Parsed (article_meta article hashId))"

subsection \<open>The category index\<close>

text \<open>
  The records \<open>updateIndex\<close> collects: of the files whose name starts with \<open>article_\<close>,
  in directory order, those that parse to a value whose \<open>category\<close> is the given string.
  A file that does not parse, and \<open>null\<close>, raise inside the \<open>try\<close> and are skipped.
\<close>

definition record_of :: "jsstring \<Rightarrow> jsonfile \<Rightarrow> json list" where
  "record_of cat content =
     (case content of
        Unparsable \<Rightarrow> []
      | Parsed a \<Rightarrow> (case get_prop a (js ''category'') of
                      Inl e \<Rightarrow> []
                    | Inr c \<Rightarrow> if c = Some (JStr cat) then [a] else []))"

definition matching_records :: "dir \<Rightarrow> jsstring \<Rightarrow> json list" where
  "matching_records d cat =
     concat (map (\<lambda>(f, content). record_of cat content)
               (filter (\<lambda>(f, content). startsWith f (js ''article_'')) d))"

text \<open>
  \<open>a.published || ""\<close>, when it is a string.  The comparison function calls
  \<open>localeCompare\<close> on it, which is a TypeError when it is a number, \<open>true\<close>, an array or
  an object.
\<close>

definition published_key :: "json \<Rightarrow> jsstring option" where
  "published_key a =
     (case get_prop a (js ''published'') of
        Inr (Some v) \<Rightarrow> if truthy v then (case v of JStr s \<Rightarrow> Some s | _ \<Rightarrow> None) else Some []
      | _ \<Rightarrow> Some [])"

definition published_or_empty :: "json \<Rightarrow> jsstring" where
  "published_or_empty a = (case published_key a of Some s \<Rightarrow> s | None \<Rightarrow> [])"

definition index_file :: "jsstring \<Rightarrow> jsstring" where
  "index_file cat = js ''index_'' @ cat @ js ''.json''"

text \<open>
  \<open>String.prototype.localeCompare\<close> is the platform's collation and is the parameter
  \<open>localeCompare\<close>: \<open>localeCompare a b\<close> is \<open>a.localeCompare(b)\<close>.  The function returns
  the directory after the call and the count, or the TypeError of the comparison.  With
  fewer than two records nothing is compared.  Which records an engine compares, and
  which of the two it passes as the receiver, the language does not fix.  The model
  raises whenever two or more records are sorted and one of them has a \<open>published\<close>
  value that is truthy and not a string; the code raises there only if the engine makes
  such a value the receiver of a comparison (two records, a string and then a number,
  are sorted without error by an engine that takes the first as the receiver).  So the
  model agrees with the code where every \<open>published\<close> is a string, absent or falsy, and
  where fewer than two records are kept; elsewhere its error is an upper bound of the
  code's.
\<close>

definition updateIndex ::
    "(jsstring \<Rightarrow> jsstring \<Rightarrow> int) \<Rightarrow> jsstring \<Rightarrow> dir \<Rightarrow> jsstring \<Rightarrow> dir \<times> (error + nat)" where
  "updateIndex localeCompare now d cat =
     (let articles = matching_records d cat
      in if 2 \<le> length articles \<and> (\<exists>a \<in> set articles. published_key a = None)
         then (d, Inl TypeError)
         else
           let articles = sort_by (\<lambda>a b. localeCompare (published_or_empty b) (published_or_empty a))
                            articles;
               index = JObj [(js ''category'', JStr cat),
                             (js ''total'', JNum (int (length articles))),
                             (js ''updated'', JStr now),
                             (js ''articles'', JArr (slice0 50 articles))]
           in (writeFileSync d (index_file cat) (Parsed index), Inr (length articles)))"

text \<open>Comparison of strings by code units, the first difference deciding.\<close>

fun compare_units :: "jsstring \<Rightarrow> jsstring \<Rightarrow> int" where
  "compare_units [] [] = 0"
| "compare_units [] (y # ys) = - 1"
| "compare_units (x # xs) [] = 1"
| "compare_units (x # xs) (y # ys) =
     (if x < y then - 1 else if y < x then 1 else compare_units xs ys)"

text \<open>
  A collation as the platform has it for an English or a Romanian locale, on strings of
  ASCII letters, digits, spaces and commas: letters are compared alphabetically whatever
  their case, and the lower-case letter comes first among strings that differ in case
  only.
\<close>

definition fold_case :: "nat \<Rightarrow> nat" where
  "fold_case c = (if 65 \<le> c \<and> c \<le> 90 then c + 32 else c)"

definition collate :: "jsstring \<Rightarrow> jsstring \<Rightarrow> int" where
  "collate a b =
     (let c = compare_units (map fold_case a) (map fold_case b)
      in if c \<noteq> 0 then c else compare_units b a)"

subsection \<open>Example directories\<close>

text \<open>
  The scenario of the specification: 60 records of the category and 10 of another one,
  published in 60 different seconds.
\<close>

definition two_digits :: "nat \<Rightarrow> jsstring" where
  "two_digits i = [48 + i div 10, 48 + i mod 10]"

definition scenario_record :: "jsstring \<Rightarrow> nat \<Rightarrow> json" where
  "scenario_record cat i =
     JObj [(js ''title'', JStr (js ''Stire '' @ two_digits i)),
           (js ''category'', JStr cat),
           (js ''published'', JStr (js ''2025-11-03T07:00:'' @ two_digits i @ js ''.000Z''))]"

definition scenario_file :: "jsstring \<Rightarrow> nat \<Rightarrow> jsstring \<times> jsonfile" where
  "scenario_file cat i =
     (js ''article_'' @ cat @ two_digits i @ js ''.json'', Parsed (scenario_record cat i))"

definition scenario_dir :: dir where
  "scenario_dir =
     map (scenario_file (js ''finante'')) [0..<60] @ map (scenario_file (js ''tech'')) [0..<10]"

text \<open>
  Two records whose publication dates come from feeds that write them differently, and
  two records whose publication dates are numbers.
\<close>

definition record_mar :: json where
  "record_mar = JObj [(js ''category'', JStr (js ''finante'')),
                      (js ''published'', JStr (js ''mar, 04 nov 2025''))]"

definition record_Tue :: json where
  "record_Tue = JObj [(js ''category'', JStr (js ''finante'')),
                      (js ''published'', JStr (js ''Tue, 04 Nov 2025''))]"

definition two_feeds_dir :: dir where
  "two_feeds_dir =
     [(js ''article_0123456789ab.json'', Parsed record_mar),
      (js ''article_ba9876543210.json'', Parsed record_Tue)]"

definition numeric_dir :: dir where
  "numeric_dir =
     [(js ''article_0123456789ab.json'',
       Parsed (JObj [(js ''category'', JStr (js ''finante'')), (js ''published'', JNum 1762239600000)])),
      (js ''article_ba9876543210.json'',
       Parsed (JObj [(js ''category'', JStr (js ''finante'')), (js ''published'', JNum 1762243200000)]))]"

section \<open>The finance agent\<close>

text \<open>A candidate entry, as \<open>fetchRss\<close> builds it from a feed item.\<close>

record entry =
  entry_title :: jsstring
  entry_url :: jsstring
  entry_published :: jsstring
  entry_summary :: jsstring
  entry_sourceId :: jsstring
  entry_sourceName :: jsstring

text \<open>
  What the agent takes from outside: the platform's digest, lower-casing and collation,
  the \<open>slugify\<close> package (with the options \<open>lower\<close> and \<open>strict\<close>), and the page template
  \<open>generateArticleHtml\<close> with the agent's icon, a string built from the article's fields
  whose text plays no part below.
\<close>

record platform =
  digest :: "jsstring \<Rightarrow> jsstring"
  to_lower :: "jsstring \<Rightarrow> jsstring"
  collation :: "jsstring \<Rightarrow> jsstring \<Rightarrow> int"
  slugify :: "jsstring \<Rightarrow> jsstring"
  generateArticleHtml :: "article \<Rightarrow> jsstring"

text \<open>
  One invocation: the command line (\<open>maxArticles\<close> is \<open>None\<close> when \<open>parseInt\<close> gives
  \<open>NaN\<close>), the entries fetched from all sources in order, what \<open>scrapeContent\<close> returns for
  a URL, and the clock at the two calls of \<open>new Date()\<close>.
\<close>

record invocation =
  dryRun :: bool
  maxArticles :: "int option"
  allEntries :: "entry list"
  scrapeContent :: "jsstring \<Rightarrow> jsstring"
  clock_saveSeen :: jsstring
  clock_updateIndex :: jsstring

record disk =
  data_dir :: dir
  output_dir :: "(jsstring \<times> jsstring) list"

definition SUBCATEGORIES :: taxonomy where
  "SUBCATEGORIES =
    [
      (js ''credite'',
        [js ''credit'',
         js ''credite'',
         js ''ipotecar'',
         js ''imobiliar'',
         js ''dob'' @ [226] @ js ''nd'' @ [259],
         js ''IRCC'',
         js ''ROBOR'',
         [238] @ js ''mprumut'',
         js ''refinan'' @ [539] @ js ''are'']),
      (js ''economisire'',
        [js ''economii'',
         js ''economisire'',
         js ''depozit'',
         js ''cont economii'',
         js ''buget'']),
      (js ''investitii'',
        [js ''investi'' @ [539] @ js ''i'',
         js ''ac'' @ [539] @ js ''iuni'',
         js ''obliga'' @ [539] @ js ''iuni'',
         js ''ETF'',
         js ''burs'' @ [259],
         js ''BVB'',
         js ''portofoliu'',
         js ''titluri de stat'']),
      (js ''taxe'',
        [js ''taxe'',
         js ''impozit'',
         js ''ANAF'',
         js ''declara'' @ [539] @ js ''ia unic'' @ [259],
         js ''CAS'',
         js ''CASS'',
         js ''TVA'',
         js ''fiscal'',
         js ''PFA'']),
      (js ''pensii'',
        [js ''pensie'',
         js ''pilonul'',
         js ''fond de pensii'',
         js ''CNPP'',
         js ''punct de pensie''])]"

definition seen_file :: jsstring where
  "seen_file = js ''seen_finance.json''"

text \<open>The article the loop of \<open>run\<close> builds for an entry it accepts.\<close>

definition make_article :: "platform \<Rightarrow> invocation \<Rightarrow> entry \<Rightarrow> article" where
  "make_article P iv e =
     (let txt = entry_title e @ js '' '' @ entry_summary e;
          sub = detectSubcategory (to_lower P) txt SUBCATEGORIES;
          a = \<lparr>title = entry_title e,
               slug = slice0 80 (slugify P (entry_title e)),
               url = entry_url e,
               category = js ''finante'',
               subcategory = sub,
               subcategoryKeywords =
                 Some (case map_of SUBCATEGORIES sub of None \<Rightarrow> [] | Some ks \<Rightarrow> ks),
               published = entry_published e,
               summary = entry_summary e,
               contentHtml = [],
               sourceName = entry_sourceName e,
               author = js ''Echipa FinRo'',
               rating = None,
               metaTitle = None, metaDescription = None, metaKeywords = None,
               readingTime = None\<rparr>;
          a = (if \<not> dryRun iv then a\<lparr>contentHtml := scrapeContent iv (entry_url e)\<rparr> else a)
      in generateMeta a
           [js ''finan'' @ [539] @ js ''e personale'', js ''Rom'' @ [226] @ js ''nia'', js ''2025''])"

text \<open>\<open>newArticles.length >= maxArticles\<close>; a comparison with \<open>NaN\<close> is false.\<close>

definition at_cap :: "int option \<Rightarrow> nat \<Rightarrow> bool" where
  "at_cap m n = (case m of None \<Rightarrow> False | Some k \<Rightarrow> k \<le> int n)"

text \<open>
  The loop over the entries, with the set \<open>seen\<close> and the list \<open>newArticles\<close> as they
  stand when the entry is reached.
\<close>

fun collect ::
    "platform \<Rightarrow> invocation \<Rightarrow> entry list \<Rightarrow> json list \<Rightarrow> (article \<times> jsstring) list
       \<Rightarrow> json list \<times> (article \<times> jsstring) list" where
  "collect P iv [] seen newArticles = (seen, newArticles)"
| "collect P iv (e # es) seen newArticles =
     (if entry_title e = [] \<or> entry_url e = [] then collect P iv es seen newArticles
      else if Set_has seen (JStr (hashUrl (digest P) (entry_url e)))
      then collect P iv es seen newArticles
      else if at_cap (maxArticles iv) (Suc (length newArticles))
      then (Set_add seen (JStr (hashUrl (digest P) (entry_url e))),
            newArticles @ [(make_article P iv e, hashUrl (digest P) (entry_url e))])
      else collect P iv es
             (Set_add seen (JStr (hashUrl (digest P) (entry_url e))))
             (newArticles @ [(make_article P iv e, hashUrl (digest P) (entry_url e))]))"

text \<open>The two files written for an accepted article: the page and the record.\<close>

definition write_article :: "platform \<Rightarrow> disk \<Rightarrow> article \<times> jsstring \<Rightarrow> disk" where
  "write_article P dk ah =
     dk\<lparr>output_dir :=
           writeFileSync (output_dir dk) (slug (fst ah) @ js ''.html'')
             (generateArticleHtml P (fst ah)),
        data_dir := saveArticleMeta (data_dir dk) (fst ah) (snd ah)\<rparr>"

text \<open>
  \<open>run\<close>: the disk after the run, the list \<open>newArticles\<close>, and the error that ends the
  process when the index builder raises.
\<close>

definition run ::
    "platform \<Rightarrow> invocation \<Rightarrow> disk \<Rightarrow> disk \<times> (article \<times> jsstring) list \<times> error option" where
  "run P iv dk =
     (let seen0 = loadSeen (data_dir dk) seen_file;
          (seen, newArticles) = collect P iv (allEntries iv) seen0 []
      in if \<not> dryRun iv
         then
           let dk = foldl (write_article P) dk newArticles;
               d = saveSeen (clock_saveSeen iv) (data_dir dk) seen_file seen;
               (d, total) = updateIndex (collation P) (clock_updateIndex iv) d (js ''finante'')
           in (dk\<lparr>data_dir := d\<rparr>, newArticles,
               case total of Inl err \<Rightarrow> Some err | Inr n \<Rightarrow> None)
         else (dk, newArticles, None))"

text \<open>
  The fingerprints for which a run wrote a page and a record, and a sequence of runs with
  the fingerprints written along the way, oldest first.
\<close>

definition written :: "invocation \<Rightarrow> (article \<times> jsstring) list \<Rightarrow> jsstring list" where
  "written iv newArticles = (if dryRun iv then [] else map snd newArticles)"

fun runs :: "platform \<Rightarrow> invocation list \<Rightarrow> disk \<Rightarrow> disk \<times> jsstring list" where
  "runs P [] dk = (dk, [])"
| "runs P (iv # ivs) dk =
     (case run P iv dk of
        (dk', newArticles, err) \<Rightarrow>
          (case runs P ivs dk' of (dk'', hs) \<Rightarrow> (dk'', written iv newArticles @ hs)))"

text \<open>A file without its \<open>updated\<close> member.\<close>

fun without_updated :: "jsonfile \<Rightarrow> jsonfile" where
  "without_updated (Parsed (JObj fs)) = Parsed (JObj (filter (\<lambda>(k, v). k \<noteq> js ''updated'') fs))"
| "without_updated c = c"

subsection \<open>Example invocations\<close>

text \<open>
  A platform for the examples: the digest is the stand-in above, the collation compares
  code units, and lower-casing and the page's title stand for \<open>slugify\<close> and for the
  template.
\<close>

definition example_platform :: platform where
  "example_platform =
     \<lparr>digest = example_digest, to_lower = toLowerCase, collation = compare_units,
      slugify = toLowerCase, generateArticleHtml = title\<rparr>"

definition example_entry :: entry where
  "example_entry =
     \<lparr>entry_title = js ''BNR: dobanda de referinta'', entry_url = js ''https://example.ro/a'',
      entry_published = js ''2025-11-03T06:00:00.000Z'', entry_summary = js ''Credit mai scump'',
      entry_sourceId = js ''bnr'', entry_sourceName = js ''BNR''\<rparr>"

definition example_invocation :: invocation where
  "example_invocation =
     \<lparr>dryRun = False, maxArticles = Some 5, allEntries = [example_entry],
      scrapeContent = (\<lambda>u. []), clock_saveSeen = js ''2025-11-03T07:00:00.000Z'',
      clock_updateIndex = js ''2025-11-03T07:00:00.001Z''\<rparr>"

definition empty_disk :: disk where
  "empty_disk = \<lparr>data_dir = [], output_dir = []\<rparr>"

definition untitled_entry :: entry where
  "untitled_entry = example_entry\<lparr>entry_title := []\<rparr>"

definition second_entry :: entry where
  "second_entry =
     \<lparr>entry_title = js ''Taxe noi din 2026'', entry_url = js ''https://example.ro/b'',
      entry_published = js ''2025-11-03T06:30:00.000Z'', entry_summary = js ''ANAF anunta'',
      entry_sourceId = js ''zf'', entry_sourceName = js ''Ziarul Financiar''\<rparr>"

definition later_invocation :: invocation where
  "later_invocation =
     example_invocation\<lparr>clock_saveSeen := js ''2025-11-04T07:00:00.000Z'',
                         clock_updateIndex := js ''2025-11-04T07:00:00.001Z''\<rparr>"

section \<open>Properties of the metadata generator\<close>

lemma length_ellipsis: "length ellipsis = 3"
  by (simp add: ellipsis_def js_def)

lemma metaTitle_generateMeta:
  "metaTitle (generateMeta a kws) =
     Some ((if length (title a) > 60 then take 57 (title a) @ ellipsis else title a) @ site_suffix)"
  by (simp add: generateMeta_def Let_def slice0_def)

lemma metaDescription_generateMeta:
  "metaDescription (generateMeta a kws) =
     Some (let desc = or_else (summary a) (title a)
           in if length desc > 155 then take 152 desc @ ellipsis else desc)"
  by (simp add: generateMeta_def Let_def slice0_def)

lemma readingTime_generateMeta:
  "readingTime (generateMeta a kws) =
     Some (max 2 (length (split_ws (summary a @ js '' '' @ contentHtml a)) div 200))"
  by (simp add: generateMeta_def Let_def)

lemma length_split_from_any:
  "length (split_from cur s) = length (split_from cur' s)"
proof (induction cur s arbitrary: cur' rule: split_from.induct)
  case (1 cur)
  show ?case by simp
next
  case (2 cur c cs)
  show ?case
  proof (cases "is_space c")
    case True
    then show ?thesis by simp
  next
    case False
    from 2(2) [OF False, of "c # cur'"] False show ?thesis
      by (simp only: split_from.simps if_False)
  qed
qed

lemma length_split_from_words:
  "length (split_from cur (concat (replicate n (js '' w'')) @ t)) = n + length (split_from [] t)"
proof (induction n arbitrary: cur)
  case 0
  show ?case using length_split_from_any [of cur t "[]"] by simp
next
  case (Suc n)
  have "length (split_from [119] (concat (replicate n (js '' w'')) @ t))
        = n + length (split_from [] t)"
    by (rule Suc.IH)
  then show ?case by (simp add: js_def is_space_def)
qed

lemma length_split_ws_words:
  "length (split_ws ((js ''w'' @ concat (replicate n (js '' w''))) @ t)) = n + length (split_ws t)"
proof -
  have "split_ws ((js ''w'' @ concat (replicate n (js '' w''))) @ t)
        = split_from [119] (concat (replicate n (js '' w'')) @ t)"
    by (simp add: split_ws_def js_def is_space_def)
  then show ?thesis
    by (simp only: length_split_from_words split_ws_def)
qed

subsection \<open>Titles and descriptions\<close>

text \<open>
  C4.  The meta title is the title followed by the site suffix when the title has at most
  60 code units, and otherwise its first 57 code units, the ellipsis and the suffix; it is
  never longer than 60 plus the length of the suffix.  The meta description is the summary,
  or the title when the summary is empty, kept whole when it has at most 155 code units and
  otherwise cut to its first 152 code units plus the ellipsis; it is never longer than 155.
\<close>

theorem generateMeta_title_description:
  "metaTitle (generateMeta a kws) =
     Some (if length (title a) \<le> 60 then title a @ site_suffix
           else take 57 (title a) @ ellipsis @ site_suffix)
   \<and> length (the (metaTitle (generateMeta a kws))) \<le> 60 + length site_suffix
   \<and> metaDescription (generateMeta a kws) =
     Some (let desc = (if summary a = [] then title a else summary a)
           in if length desc \<le> 155 then desc else take 152 desc @ ellipsis)
   \<and> length (the (metaDescription (generateMeta a kws))) \<le> 155"
  by (auto simp: metaTitle_generateMeta metaDescription_generateMeta Let_def or_else_def
        length_ellipsis)

theorem generateMeta_title_description_witness:
  "metaTitle (generateMeta long_title_article []) =
     Some (replicate 57 84 @ js ''...'' @ js '' | FinRo.ro'')
   \<and> metaDescription (generateMeta long_title_article []) = Some (replicate 61 84)"
  using generateMeta_title_description [of long_title_article "[]"]
  by (simp add: long_title_article_def ellipsis_def site_suffix_def)

subsection \<open>Reading time\<close>

lemma length_split_ws_body:
  "length (split_ws (js ''w'' @ concat (replicate 399 (js '' w'')))) = 400"
  using length_split_ws_words [of 399 "[]"] by (simp add: split_ws_def)

lemma length_split_ws_space_body:
  "length (split_ws (js '' '' @ js ''w'' @ concat (replicate 399 (js '' w'')))) = 401"
proof -
  have "split_ws (js '' '' @ js ''w'' @ concat (replicate 399 (js '' w'')))
        = [] # split_ws (js ''w'' @ concat (replicate 399 (js '' w'')))"
    by (simp add: split_ws_def js_def is_space_def)
  then show ?thesis by (simp only: length_split_ws_body list.size)
qed

lemma boundary_article_code:
  "length (split_ws (summary boundary_article @ js '' '' @ contentHtml boundary_article)) = 600"
  by (simp only: boundary_article_def article.simps length_split_ws_words
      length_split_ws_space_body)

lemma boundary_article_concatenation:
  "length (split_ws (summary boundary_article @ contentHtml boundary_article)) = 599"
  by (simp only: boundary_article_def article.simps length_split_ws_words
      length_split_ws_body)

text \<open>
  C6, as stated, fails: for a summary of 200 words and a body of 400 words the code splits
  the summary, a space and the body into 600 pieces and gives 3 minutes, while the summary
  directly followed by the body has 599 words, which give 2.
\<close>

theorem readingTime_concatenation_counterexample:
  "readingTime (generateMeta boundary_article []) = Some 3
   \<and> readingTime_of_concatenation boundary_article = 2"
proof
  show "readingTime (generateMeta boundary_article []) = Some 3"
    by (simp only: readingTime_generateMeta boundary_article_code) simp
  show "readingTime_of_concatenation boundary_article = 2"
    by (simp only: readingTime_of_concatenation_def boundary_article_concatenation)
qed

text \<open>
  C6, amended.  The reading time is the number of pieces of the string made of the
  summary, one space and the body text, split at runs of white space, divided by 200
  and rounded down, and at least 2; so it is at least 2 for every article.
\<close>

theorem generateMeta_readingTime:
  "readingTime (generateMeta a kws) =
     Some (max 2 (length (split_ws (summary a @ js '' '' @ contentHtml a)) div 200))
   \<and> (\<exists>n. readingTime (generateMeta a kws) = Some n \<and> 2 \<le> n)"
  by (simp add: readingTime_generateMeta)

subsection \<open>Mutation in place\<close>

lemma metaKeywords_generateMeta:
  "metaKeywords (generateMeta a kws) =
     Some (new_Set (kws @ take 4 (case subcategoryKeywords a of None \<Rightarrow> [] | Some ks \<Rightarrow> ks)))"
  by (simp add: generateMeta_def Let_def slice0_def)

text \<open>
  C10.  The metadata generator assigns the four derived fields on the object it is given
  and returns the reference it was given: after the call the object at that reference
  is the old one with \<open>metaTitle\<close>, \<open>metaDescription\<close>, \<open>metaKeywords\<close> and \<open>readingTime\<close> set to
  the values derived from the old one, every other field (also one in the record's
  extension) as before; no other object of the store changes.
\<close>

theorem generateMeta_frame:
  "generateMeta_store h r kws = (h', r') \<Longrightarrow>
     r' = r \<and> (\<forall>p. p \<noteq> r \<longrightarrow> h' p = h p) \<and>
     h' r = (h r)\<lparr>metaTitle := metaTitle (h' r), metaDescription := metaDescription (h' r),
                  metaKeywords := metaKeywords (h' r), readingTime := readingTime (h' r)\<rparr> \<and>
     metaTitle (h' r) =
       Some ((if length (title (h r)) > 60 then take 57 (title (h r)) @ ellipsis
              else title (h r)) @ site_suffix) \<and>
     metaDescription (h' r) =
       Some (let desc = (if summary (h r) = [] then title (h r) else summary (h r))
             in if length desc > 155 then take 152 desc @ ellipsis else desc) \<and>
     metaKeywords (h' r) =
       Some (new_Set (kws @ take 4 (case subcategoryKeywords (h r) of None \<Rightarrow> []
                                     | Some ks \<Rightarrow> ks))) \<and>
     readingTime (h' r) =
       Some (max 2 (length (split_ws (summary (h r) @ js '' '' @ contentHtml (h r))) div 200))"
proof -
  assume a: "generateMeta_store h r kws = (h', r')"
  then have r: "r' = r" and h': "h' = h(r := generateMeta (h r) kws)"
    by (auto simp: generateMeta_store_def)
  have at_r: "h' r = generateMeta (h r) kws" using h' by simp
  have frame: "\<forall>p. p \<noteq> r \<longrightarrow> h' p = h p" using h' by simp
  have fields: "h' r = (h r)\<lparr>metaTitle := metaTitle (h' r), metaDescription := metaDescription (h' r),
                  metaKeywords := metaKeywords (h' r), readingTime := readingTime (h' r)\<rparr>"
    unfolding at_r by (simp add: generateMeta_def Let_def)
  have t: "metaTitle (h' r) =
       Some ((if length (title (h r)) > 60 then take 57 (title (h r)) @ ellipsis
              else title (h r)) @ site_suffix)"
    unfolding at_r by (rule metaTitle_generateMeta)
  have d: "metaDescription (h' r) =
       Some (let desc = (if summary (h r) = [] then title (h r) else summary (h r))
             in if length desc > 155 then take 152 desc @ ellipsis else desc)"
    unfolding at_r by (simp add: metaDescription_generateMeta or_else_def)
  have k: "metaKeywords (h' r) =
       Some (new_Set (kws @ take 4 (case subcategoryKeywords (h r) of None \<Rightarrow> []
                                     | Some ks \<Rightarrow> ks)))"
    unfolding at_r by (rule metaKeywords_generateMeta)
  have t': "readingTime (h' r) =
       Some (max 2 (length (split_ws (summary (h r) @ js '' '' @ contentHtml (h r))) div 200))"
    unfolding at_r by (rule readingTime_generateMeta)
  from r frame fields t d k t' show ?thesis by blast
qed

text \<open>
  In a store where every reference holds the article with a title of 61 characters and no
  derived field, a call at reference 0 with the base keyword "2025" sets the four fields
  of the object at 0 and leaves the object at 1 without them.
\<close>

theorem generateMeta_frame_witness:
  "snd (generateMeta_store (\<lambda>_. long_title_article) 0 [js ''2025'']) = 0
   \<and> fst (generateMeta_store (\<lambda>_. long_title_article) 0 [js ''2025'']) 1 = long_title_article
   \<and> metaTitle long_title_article = None
   \<and> metaTitle (fst (generateMeta_store (\<lambda>_. long_title_article) 0 [js ''2025'']) 0)
       = Some (replicate 57 84 @ js ''...'' @ js '' | FinRo.ro'')
   \<and> metaDescription (fst (generateMeta_store (\<lambda>_. long_title_article) 0 [js ''2025'']) 0)
       = Some (replicate 61 84)
   \<and> metaKeywords (fst (generateMeta_store (\<lambda>_. long_title_article) 0 [js ''2025'']) 0)
       = Some [js ''2025'']
   \<and> readingTime (fst (generateMeta_store (\<lambda>_. long_title_article) 0 [js ''2025'']) 0) = Some 2
   \<and> title (fst (generateMeta_store (\<lambda>_. long_title_article) 0 [js ''2025'']) 0)
       = replicate 61 84"
proof -
  let ?g = "generateMeta_store (\<lambda>_. long_title_article) 0 [js ''2025'']"
  have "?g = (fst ?g, snd ?g)" by simp
  from generateMeta_frame [OF this]
  have f: "snd ?g = 0" "\<forall>p. p \<noteq> 0 \<longrightarrow> fst ?g p = long_title_article"
    "fst ?g 0 = long_title_article\<lparr>metaTitle := metaTitle (fst ?g 0),
        metaDescription := metaDescription (fst ?g 0),
        metaKeywords := metaKeywords (fst ?g 0), readingTime := readingTime (fst ?g 0)\<rparr>"
    "metaTitle (fst ?g 0) =
       Some ((if length (title long_title_article) > 60
              then take 57 (title long_title_article) @ ellipsis
              else title long_title_article) @ site_suffix)"
    "metaDescription (fst ?g 0) =
       Some (let desc = (if summary long_title_article = [] then title long_title_article
                         else summary long_title_article)
             in if length desc > 155 then take 152 desc @ ellipsis else desc)"
    "metaKeywords (fst ?g 0) =
       Some (new_Set ([js ''2025''] @ take 4 (case subcategoryKeywords long_title_article of
                                               None \<Rightarrow> [] | Some ks \<Rightarrow> ks)))"
    "readingTime (fst ?g 0) =
       Some (max 2 (length (split_ws (summary long_title_article @ js '' ''
                                        @ contentHtml long_title_article)) div 200))"
    by blast+
  have 1: "fst ?g 1 = long_title_article" using f(2) by simp
  have 2: "metaTitle long_title_article = None" by (simp add: long_title_article_def)
  have 3: "metaTitle (fst ?g 0) = Some (replicate 57 84 @ js ''...'' @ js '' | FinRo.ro'')"
    unfolding f(4) by (simp add: long_title_article_def ellipsis_def site_suffix_def)
  have 4: "metaDescription (fst ?g 0) = Some (replicate 61 84)"
    unfolding f(5) by (simp add: long_title_article_def)
  have 5: "metaKeywords (fst ?g 0) = Some [js ''2025'']"
    unfolding f(6) by (simp add: long_title_article_def new_Set_def)
  have 6: "readingTime (fst ?g 0) = Some 2"
    unfolding f(7) by (simp add: long_title_article_def split_ws_def js_def is_space_def)
  have 7: "title (fst ?g 0) = replicate 61 84"
    by (subst f(3)) (simp add: long_title_article_def)
  from f(1) 1 2 3 4 5 6 7 show ?thesis by blast
qed

section \<open>Properties of the fingerprint\<close>

text \<open>
  C9.  The fingerprint of a URL is the first 12 characters of the hexadecimal MD5 digest
  of the URL; it is a function of the URL alone, and a string of 12 hexadecimal digits
  whenever the digest is a string of at least 12 hexadecimal digits (an MD5 digest has 32).
\<close>

theorem hashUrl_first_12:
  "hashUrl md5_hex u = take 12 (md5_hex u)
   \<and> (u = u' \<longrightarrow> hashUrl md5_hex u = hashUrl md5_hex u')
   \<and> (12 \<le> length (md5_hex u) \<and> (\<forall>c \<in> set (md5_hex u). is_hex_digit c) \<longrightarrow>
        length (hashUrl md5_hex u) = 12 \<and> (\<forall>c \<in> set (hashUrl md5_hex u). is_hex_digit c))"
  by (auto simp: hashUrl_def slice0_def dest: in_set_takeD)

theorem hashUrl_first_12_witness:
  "hashUrl example_digest (js ''https://example.ro/a'') = js ''66389231b7e4''
   \<and> length (hashUrl example_digest (js ''https://example.ro/a'')) = 12"
  using hashUrl_first_12 [of example_digest "js ''https://example.ro/a''" "js ''https://example.ro/a''"]
  by (simp add: example_digest_def js_def)

section \<open>Properties of the classifier\<close>

lemma startsWith_iff: "startsWith s t \<longleftrightarrow> (\<exists>v. s = t @ v)"
  unfolding startsWith_def
  by (metis append_eq_conv_conj append_take_drop_id)

lemma js_includes_iff: "js_includes s t \<longleftrightarrow> (\<exists>u v. s = u @ t @ v)"
proof (induction s)
  case Nil
  then show ?case by auto
next
  case (Cons c cs)
  show ?case
  proof
    assume "js_includes (c # cs) t"
    then consider "startsWith (c # cs) t" | "js_includes cs t" by auto
    then show "\<exists>u v. c # cs = u @ t @ v"
    proof cases
      case 1
      then obtain v where "c # cs = t @ v" using startsWith_iff by blast
      then have "c # cs = [] @ t @ v" by simp
      then show ?thesis by blast
    next
      case 2
      then obtain u v where "cs = u @ t @ v" using Cons.IH by blast
      then have "c # cs = (c # u) @ t @ v" by simp
      then show ?thesis by blast
    qed
  next
    assume "\<exists>u v. c # cs = u @ t @ v"
    then obtain u v where uv: "c # cs = u @ t @ v" by blast
    show "js_includes (c # cs) t"
    proof (cases u)
      case Nil
      with uv have "startsWith (c # cs) t" using startsWith_iff by fastforce
      then show ?thesis by simp
    next
      case (Cons a u')
      with uv have "cs = u' @ t @ v" by simp
      then have "js_includes cs t" using Cons.IH by blast
      then show ?thesis by simp
    qed
  qed
qed

lemma sort_by_Cons: "sort_by cmp (x # xs) = insert_by cmp x (sort_by cmp xs)"
  by (simp add: sort_by_def)

lemma sort_by_Nil: "sort_by cmp [] = []"
  by (simp add: sort_by_def)

lemma length_insert_by: "length (insert_by cmp x ys) = Suc (length ys)"
  by (induction ys) auto

lemma length_sort_by: "length (sort_by cmp xs) = length xs"
  by (induction xs) (auto simp: sort_by_Cons sort_by_Nil length_insert_by)

lemma hd_insert_by:
  "hd (insert_by cmp x ys) = (if ys = [] \<or> cmp x (hd ys) \<le> 0 then x else hd ys)"
  by (cases ys) auto

lemma sort_by_eq_Nil: "sort_by cmp xs = [] \<longleftrightarrow> xs = []"
  using length_sort_by [of cmp xs] by (metis length_0_conv)

lemma hd_sort_by_score:
  fixes sc :: "('a \<times> int) list"
  assumes "sc \<noteq> []"
  shows "\<exists>i<length sc. hd (sort_by (\<lambda>a b. snd b - snd a) sc) = sc ! i
           \<and> (\<forall>j<length sc. snd (sc ! j) \<le> snd (sc ! i))
           \<and> (\<forall>j<i. snd (sc ! j) < snd (sc ! i))"
  using assms
proof (induction sc)
  case Nil
  then show ?case by simp
next
  case (Cons x xs)
  let ?cmp = "\<lambda>a b :: 'a \<times> int. snd b - snd a"
  show ?case
  proof (cases "xs = []")
    case True
    then show ?thesis by (simp add: sort_by_Cons sort_by_Nil)
  next
    case False
    then obtain i where i: "i < length xs" "hd (sort_by ?cmp xs) = xs ! i"
        "\<forall>j<length xs. snd (xs ! j) \<le> snd (xs ! i)" "\<forall>j<i. snd (xs ! j) < snd (xs ! i)"
      using Cons.IH by blast
    have ne: "sort_by ?cmp xs \<noteq> []" using False by (simp add: sort_by_eq_Nil)
    show ?thesis
    proof (cases "snd (xs ! i) \<le> snd x")
      case True
      then have "hd (sort_by ?cmp (x # xs)) = x"
        using i(2) ne by (simp add: sort_by_Cons hd_insert_by)
      moreover have "\<forall>j<length (x # xs). snd ((x # xs) ! j) \<le> snd x"
        using True i(3) by (auto simp: nth_Cons split: nat.splits)
      ultimately have "0 < length (x # xs) \<and> hd (sort_by ?cmp (x # xs)) = (x # xs) ! 0
           \<and> (\<forall>j<length (x # xs). snd ((x # xs) ! j) \<le> snd ((x # xs) ! 0))
           \<and> (\<forall>j<0. snd ((x # xs) ! j) < snd ((x # xs) ! 0))"
        by simp
      then show ?thesis by blast
    next
      case False
      then have "hd (sort_by ?cmp (x # xs)) = xs ! i"
        using i(2) ne by (simp add: sort_by_Cons hd_insert_by)
      moreover have "\<forall>j<length (x # xs). snd ((x # xs) ! j) \<le> snd (xs ! i)"
        using False i(3) by (auto simp: nth_Cons split: nat.splits)
      moreover have "\<forall>j<Suc i. snd ((x # xs) ! j) < snd (xs ! i)"
        using False i(4) by (auto simp: nth_Cons split: nat.splits)
      ultimately have "Suc i < length (x # xs) \<and> hd (sort_by ?cmp (x # xs)) = (x # xs) ! Suc i
           \<and> (\<forall>j<length (x # xs). snd ((x # xs) ! j) \<le> snd ((x # xs) ! Suc i))
           \<and> (\<forall>j<Suc i. snd ((x # xs) ! j) < snd ((x # xs) ! Suc i))"
        using i(1) by simp
      then show ?thesis by blast
    qed
  qed
qed

lemma keyword_score_substring:
  "keyword_score lower low keywords
     = int (length (filter (\<lambda>kw. \<exists>u v. low = u @ lower kw @ v) keywords))"
  by (simp add: keyword_score_def js_includes_iff)

lemma Object_entries_plain:
  "\<forall>kv \<in> set ob. array_index (fst kv) = None \<Longrightarrow> Object_entries ob = ob"
  by (simp add: Object_entries_def filter_empty_conv filter_id_conv)

lemma update_fresh: "k \<notin> fst ` set al \<Longrightarrow> AList.update k v al = al @ [(k, v)]"
  by (induction al) auto

lemma scores_of_plain_labels:
  "distinct (map fst acc @ map fst ob) \<Longrightarrow> js ''__proto__'' \<notin> fst ` set ob \<Longrightarrow>
     foldl (\<lambda>scores (cat, keywords). obj_set scores cat (f keywords)) acc ob
       = acc @ map (\<lambda>(cat, keywords). (cat, f keywords)) ob"
proof (induction ob arbitrary: acc)
  case Nil
  show ?case by simp
next
  case (Cons kv ob)
  obtain k ws where kv: "kv = (k, ws)" by (cases kv)
  have fresh: "k \<notin> fst ` set acc" and proto: "k \<noteq> js ''__proto__''"
    using Cons.prems kv by auto
  have step: "obj_set acc k (f ws) = acc @ [(k, f ws)]"
    using fresh proto by (simp add: obj_set_def update_fresh)
  have "foldl (\<lambda>scores (cat, keywords). obj_set scores cat (f keywords)) (acc @ [(k, f ws)]) ob
          = (acc @ [(k, f ws)]) @ map (\<lambda>(cat, keywords). (cat, f keywords)) ob"
    using Cons.prems kv by (intro Cons.IH) auto
  then show ?case using step kv by simp
qed

text \<open>
  C3, as stated, fails.  In the taxonomy that declares "b" before "1", each with the one
  keyword "x", both labels score 1 on the text "x" and the classifier returns "1", not
  the label declared first: a label that is an array index is enumerated before the
  others.  And a taxonomy whose one label is \<open>__proto__\<close> gives "general" although that
  label scores 1: the score of that label is never stored.
\<close>

theorem detectSubcategory_declared_order_counterexample:
  "keyword_score toLowerCase (toLowerCase (js ''x'')) [js ''x''] = 1
   \<and> fst (hd numbered_taxonomy) = js ''b''
   \<and> detectSubcategory toLowerCase (js ''x'') numbered_taxonomy = js ''1''
   \<and> detectSubcategory toLowerCase (js ''x'') proto_taxonomy = js ''general''"
  by (simp add: detectSubcategory_def keyword_score_def Object_entries_def array_index_def
      decimal_value_def obj_set_def numbered_taxonomy_def proto_taxonomy_def toLowerCase_def
      lower_unit_def sort_by_def startsWith_def js_def Let_def)

text \<open>
  C3, amended.  For a taxonomy none of whose labels is an array index or \<open>__proto__\<close>
  (each label declared once): with the score of a label being the number of its keywords
  whose lower-cased form occurs in the lower-cased text, the classifier returns "general"
  when every score is 0 (so also for the empty taxonomy), and otherwise the label of an
  entry whose score is at least every other score and strictly greater than the score of
  every entry declared before it: the highest score, the first-declared label among
  equals.
\<close>

theorem detectSubcategory_highest_score:
  assumes labels: "distinct (map fst subcategories)"
    and plain: "\<forall>l \<in> set (map fst subcategories). array_index l = None \<and> l \<noteq> js ''__proto__''"
  shows "(let score = (\<lambda>e. int (length (filter (\<lambda>kw. \<exists>u v. lower txt = u @ lower kw @ v) (snd e))))
    in if \<forall>e \<in> set subcategories. score e = 0
       then detectSubcategory lower txt subcategories = js ''general''
       else \<exists>i<length subcategories.
              detectSubcategory lower txt subcategories = fst (subcategories ! i)
              \<and> (\<forall>j<length subcategories. score (subcategories ! j) \<le> score (subcategories ! i))
              \<and> (\<forall>j<i. score (subcategories ! j) < score (subcategories ! i)))"
proof -
  define score :: "jsstring \<times> jsstring list \<Rightarrow> int"
    where "score = (\<lambda>e. int (length (filter (\<lambda>kw. \<exists>u v. lower txt = u @ lower kw @ v) (snd e))))"
  define sc where "sc = map (\<lambda>(cat, keywords). (cat, keyword_score lower (lower txt) keywords)) subcategories"
  have len: "length sc = length subcategories" by (simp add: sc_def)
  have nth: "sc ! j = (fst (subcategories ! j), score (subcategories ! j))"
    if "j < length subcategories" for j
    using that by (simp add: sc_def score_def keyword_score_substring case_prod_beta)
  have entries: "Object_entries subcategories = subcategories"
    using plain by (intro Object_entries_plain) auto
  have "foldl (\<lambda>scores (cat, keywords). obj_set scores cat (keyword_score lower (lower txt) keywords))
          [] subcategories = [] @ sc"
    unfolding sc_def using labels plain by (intro scores_of_plain_labels) auto
  then have scores: "foldl (\<lambda>scores (cat, keywords).
                       obj_set scores cat (keyword_score lower (lower txt) keywords))
                     [] subcategories = sc"
    by simp
  have "map fst sc = map fst subcategories"
    by (simp add: sc_def case_prod_beta comp_def)
  then have "\<forall>kv \<in> set sc. array_index (fst kv) = None"
    using plain by (metis (no_types, lifting) imageI list.set_map)
  then have sorted_entries: "Object_entries sc = sc"
    by (rule Object_entries_plain)
  have det: "detectSubcategory lower txt subcategories =
      (case sort_by (\<lambda>a b. snd b - snd a) sc of [] \<Rightarrow> js ''general''
       | best # _ \<Rightarrow> if snd best > 0 then fst best else js ''general'')"
    by (simp only: detectSubcategory_def Let_def entries scores sorted_entries)
  have nonneg: "0 \<le> score e" for e by (simp add: score_def)
  have "if \<forall>e \<in> set subcategories. score e = 0
       then detectSubcategory lower txt subcategories = js ''general''
       else \<exists>i<length subcategories.
              detectSubcategory lower txt subcategories = fst (subcategories ! i)
              \<and> (\<forall>j<length subcategories. score (subcategories ! j) \<le> score (subcategories ! i))
              \<and> (\<forall>j<i. score (subcategories ! j) < score (subcategories ! i))"
  proof (cases "subcategories = []")
    case True
    then have "sc = []" using len by simp
    then have "detectSubcategory lower txt subcategories = js ''general''"
      by (simp add: det sort_by_Nil)
    then show ?thesis using True by simp
  next
    case False
    then have "sc \<noteq> []" using len by auto
    then obtain i where i: "i < length sc" "hd (sort_by (\<lambda>a b. snd b - snd a) sc) = sc ! i"
        "\<forall>j<length sc. snd (sc ! j) \<le> snd (sc ! i)" "\<forall>j<i. snd (sc ! j) < snd (sc ! i)"
      using hd_sort_by_score [of sc] by blast
    have ne: "sort_by (\<lambda>a b. snd b - snd a) sc \<noteq> []"
      using \<open>sc \<noteq> []\<close> by (simp add: sort_by_eq_Nil)
    have i': "i < length subcategories" using i(1) len by simp
    have best: "hd (sort_by (\<lambda>a b. snd b - snd a) sc)
                  = (fst (subcategories ! i), score (subcategories ! i))"
      using i(2) nth [OF i'] by simp
    have res: "detectSubcategory lower txt subcategories =
        (if score (subcategories ! i) > 0 then fst (subcategories ! i) else js ''general'')"
      using ne best by (cases "sort_by (\<lambda>a b. snd b - snd a) sc") (auto simp: det)
    have le: "score (subcategories ! j) \<le> score (subcategories ! i)"
      if "j < length subcategories" for j
      using i(3) that len nth [OF that] nth [OF i'] by auto
    have lt: "score (subcategories ! j) < score (subcategories ! i)" if "j < i" for j
    proof -
      have "j < length subcategories" using that i' by simp
      then show ?thesis using i(4) that nth [of j] nth [OF i'] by auto
    qed
    show ?thesis
    proof (cases "\<forall>e \<in> set subcategories. score e = 0")
      case True
      then have "score (subcategories ! i) = 0" using i' by simp
      then show ?thesis using True res by simp
    next
      case False
      then obtain e where e: "e \<in> set subcategories" "score e \<noteq> 0" by blast
      then obtain j where "j < length subcategories" "subcategories ! j = e"
        by (metis in_set_conv_nth)
      then have "score (subcategories ! i) > 0"
        using le [of j] e(2) nonneg [of e] by auto
      then show ?thesis using False res i' le lt by auto
    qed
  qed
  then show ?thesis unfolding score_def Let_def .
qed

lemma example_score_credite: "int (length (filter (\<lambda>kw. \<exists>u v. toLowerCase example_text = u @ toLowerCase kw @ v) (snd (example_taxonomy ! 0)))) = 1"
  by (simp add: js_includes_iff [symmetric] toLowerCase_def lower_unit_def example_text_def
      example_taxonomy_def js_def startsWith_def)

lemma example_score_taxe: "int (length (filter (\<lambda>kw. \<exists>u v. toLowerCase example_text = u @ toLowerCase kw @ v) (snd (example_taxonomy ! 1)))) = 0"
  by (simp add: js_includes_iff [symmetric] toLowerCase_def lower_unit_def example_text_def
      example_taxonomy_def js_def startsWith_def)

text \<open>
  The scenario of the specification: "credite" scores 1 (its second keyword occurs in
  the lower-cased text), "taxe" scores 0, and the classifier returns "credite".
\<close>

theorem detectSubcategory_highest_score_witness:
  "detectSubcategory toLowerCase example_text example_taxonomy = js ''credite''"
proof -
  let ?score = "\<lambda>e. int (length (filter (\<lambda>kw. \<exists>u v. toLowerCase example_text = u @ toLowerCase kw @ v) (snd e)))"
  have labels: "distinct (map fst example_taxonomy)"
    by (simp add: example_taxonomy_def js_def)
  have plain: "\<forall>l \<in> set (map fst example_taxonomy). array_index l = None \<and> l \<noteq> js ''__proto__''"
    by (simp add: example_taxonomy_def array_index_def js_def)
  have mem: "example_taxonomy ! 0 \<in> set example_taxonomy" by (simp add: example_taxonomy_def)
  have "\<not> (\<forall>e \<in> set example_taxonomy. ?score e = 0)"
    using example_score_credite mem by force
  then obtain i where i: "i < length example_taxonomy"
      "detectSubcategory toLowerCase example_text example_taxonomy = fst (example_taxonomy ! i)"
      "\<forall>j<length example_taxonomy. ?score (example_taxonomy ! j) \<le> ?score (example_taxonomy ! i)"
    using detectSubcategory_highest_score [OF labels plain, of toLowerCase example_text]
    unfolding Let_def by (simp only: if_False) blast
  have len: "length example_taxonomy = 2" by (simp add: example_taxonomy_def)
  have "i \<noteq> 1"
  proof
    assume "i = 1"
    then have "?score (example_taxonomy ! 0) \<le> ?score (example_taxonomy ! 1)"
      using i(3) len by simp
    then show False using example_score_credite example_score_taxe by simp
  qed
  then have "i = 0" using i(1) len by simp
  then show ?thesis using i(2) by (simp add: example_taxonomy_def)
qed

section \<open>Properties of the persisted fingerprint set\<close>

lemma set_foldl_Set_add: "set (foldl Set_add acc xs) = set acc \<union> set xs"
  by (induction xs arbitrary: acc) (auto simp: Set_add_def Set_has_def)

lemma map_of_writeFileSync: "map_of (writeFileSync d f c) = (map_of d)(f \<mapsto> c)"
  by (simp add: writeFileSync_def update_conv')

text \<open>
  C8.  Loading the fingerprint set gives the empty set when the file is absent, when it
  cannot be read as JSON, when the parsed value has no \<open>hashes\<close> member, and whenever the
  body of the \<open>try\<close> raises; it gives the set of the values of the \<open>hashes\<close> array when the
  file parses to an object with such an array.  The function has no error result.
\<close>

theorem loadSeen_cases:
  "(map_of d f = None \<longrightarrow> loadSeen d f = [])
   \<and> (map_of d f = Some Unparsable \<longrightarrow> loadSeen d f = [])
   \<and> (map_of d f = Some (Parsed data) \<and> get_prop data (js ''hashes'') = Inr None
        \<longrightarrow> loadSeen d f = [])
   \<and> (map_of d f = Some (Parsed data) \<and> loadSeen_try data = Inl e \<longrightarrow> loadSeen d f = [])
   \<and> (map_of d f = Some (Parsed (JObj fs)) \<and> map_of fs (js ''hashes'') = Some (JArr xs)
        \<longrightarrow> set (loadSeen d f) = set xs)"
  by (auto simp: loadSeen_def loadSeen_try_def set_foldl_Set_add)

theorem loadSeen_cases_witness:
  "loadSeen [] (js ''seen_finance.json'') = []
   \<and> loadSeen [(js ''seen_finance.json'', Unparsable)] (js ''seen_finance.json'') = []
   \<and> loadSeen [(js ''seen_finance.json'', Parsed (JObj []))] (js ''seen_finance.json'') = []
   \<and> loadSeen [(js ''seen_finance.json'', Parsed JNull)] (js ''seen_finance.json'') = []
   \<and> set (loadSeen (saveSeen (js ''2025-11-03T07:00:00.000Z'') [] (js ''seen_finance.json'')
                       [JStr (js ''66389231b7e4'')]) (js ''seen_finance.json''))
       = {JStr (js ''66389231b7e4'')}"
proof -
  let ?f = "js ''seen_finance.json''"
  let ?d = "saveSeen (js ''2025-11-03T07:00:00.000Z'') [] ?f [JStr (js ''66389231b7e4'')]"
  have 1: "loadSeen [] ?f = []"
    using loadSeen_cases [of "[]" ?f] by simp
  have 2: "loadSeen [(?f, Unparsable)] ?f = []"
    using loadSeen_cases [of "[(?f, Unparsable)]" ?f] by simp
  have 3: "loadSeen [(?f, Parsed (JObj []))] ?f = []"
    using loadSeen_cases [of "[(?f, Parsed (JObj []))]" ?f "JObj []"] by simp
  have 4: "loadSeen [(?f, Parsed JNull)] ?f = []"
    using loadSeen_cases [of "[(?f, Parsed JNull)]" ?f JNull TypeError]
    by (simp add: loadSeen_try_def)
  have "map_of ?d ?f = Some (Parsed (JObj [(js ''hashes'', JArr [JStr (js ''66389231b7e4'')]),
            (js ''updated'', JStr (js ''2025-11-03T07:00:00.000Z''))]))"
    by (simp add: saveSeen_def map_of_writeFileSync)
  then have 5: "set (loadSeen ?d ?f) = {JStr (js ''66389231b7e4'')}"
    using loadSeen_cases [of ?d ?f _ _ "[(js ''hashes'', JArr [JStr (js ''66389231b7e4'')]),
            (js ''updated'', JStr (js ''2025-11-03T07:00:00.000Z''))]" "[JStr (js ''66389231b7e4'')]"]
    by simp
  from 1 2 3 4 5 show ?thesis by blast
qed

section \<open>Properties of the index builder\<close>

lemma mset_insert_by: "mset (insert_by cmp x ys) = add_mset x (mset ys)"
  by (induction ys) auto

lemma mset_sort_by: "mset (sort_by cmp xs) = mset xs"
  by (induction xs) (auto simp: sort_by_Cons sort_by_Nil mset_insert_by)

lemma set_insert_by: "set (insert_by cmp x ys) = insert x (set ys)"
  by (induction ys) auto

lemma sorted_insert_by:
  assumes total: "\<And>a b. cmp a b \<le> 0 \<or> cmp b a \<le> 0"
    and trans: "\<And>a b c. cmp a b \<le> 0 \<Longrightarrow> cmp b c \<le> 0 \<Longrightarrow> cmp a c \<le> 0"
    and sorted: "sorted_wrt (\<lambda>a b. cmp a b \<le> 0) ys"
  shows "sorted_wrt (\<lambda>a b. cmp a b \<le> 0) (insert_by cmp x ys)"
  using sorted
proof (induction ys)
  case Nil
  then show ?case by simp
next
  case (Cons y ys)
  show ?case
  proof (cases "cmp x y \<le> 0")
    case True
    then have "\<forall>z \<in> set ys. cmp x z \<le> 0"
      using Cons.prems trans by auto
    then show ?thesis using True Cons.prems by simp
  next
    case False
    then have "cmp y x \<le> 0" using total by blast
    then show ?thesis using False Cons by (auto simp: set_insert_by)
  qed
qed

lemma sorted_sort_by:
  assumes total: "\<And>a b. cmp a b \<le> 0 \<or> cmp b a \<le> 0"
    and trans: "\<And>a b c. cmp a b \<le> 0 \<Longrightarrow> cmp b c \<le> 0 \<Longrightarrow> cmp a c \<le> 0"
  shows "sorted_wrt (\<lambda>a b. cmp a b \<le> 0) (sort_by cmp xs)"
proof (induction xs)
  case Nil
  show ?case by (simp add: sort_by_Nil)
next
  case (Cons x xs)
  show ?case
    unfolding sort_by_Cons
    by (rule sorted_insert_by [OF total trans Cons.IH])
qed

lemma compare_units_total: "compare_units a b \<le> 0 \<or> compare_units b a \<le> 0"
  by (induction a b rule: compare_units.induct) auto

lemma compare_units_trans:
  "compare_units a b \<le> 0 \<Longrightarrow> compare_units b c \<le> 0 \<Longrightarrow> compare_units a c \<le> 0"
proof (induction a b arbitrary: c rule: compare_units.induct)
  case 1
  then show ?case by simp
next
  case (2 y ys)
  then show ?case by (cases c) auto
next
  case (3 x xs)
  then show ?case by simp
next
  case (4 x xs y ys)
  show ?case
  proof (cases c)
    case Nil
    with 4(3) show ?thesis by simp
  next
    case (Cons z zs)
    show ?thesis
    proof (cases "x < y")
      case True
      with 4(3) Cons have "y \<le> z" by (simp split: if_splits)
      with True have "x < z" by simp
      then show ?thesis using Cons by simp
    next
      case False
      with 4(2) have xy: "x = y" "compare_units xs ys \<le> 0" by (simp_all split: if_splits)
      show ?thesis
      proof (cases "y < z")
        case True
        then show ?thesis using xy Cons by simp
      next
        case False
        with 4(3) Cons have yz: "y = z" "compare_units ys zs \<le> 0" by (simp_all split: if_splits)
        have "compare_units xs zs \<le> 0"
          using 4(1) [of zs] xy yz by simp
        then show ?thesis using xy yz Cons by simp
      qed
    qed
  qed
qed

lemma record_of_cases:
  "record_of cat content =
     (case content of
        Parsed (JObj fs) \<Rightarrow> if map_of fs (js ''category'') = Some (JStr cat) then [JObj fs] else []
      | _ \<Rightarrow> [])"
  by (auto simp: record_of_def split: jsonfile.splits json.splits)

lemma set_matching_records:
  "set (matching_records d cat) =
     {JObj fs | f fs. (f, Parsed (JObj fs)) \<in> set d \<and> startsWith f (js ''article_'')
                   \<and> map_of fs (js ''category'') = Some (JStr cat)}"
  by (auto simp: matching_records_def record_of_cases split: jsonfile.splits json.splits if_splits)

lemma updateIndex_typed:
  assumes "\<forall>a \<in> set (matching_records d cat). published_key a \<noteq> None"
  shows "updateIndex lc now d cat =
     (let sorted = sort_by (\<lambda>a b. lc (published_or_empty b) (published_or_empty a))
                     (matching_records d cat)
      in (writeFileSync d (index_file cat)
            (Parsed (JObj [(js ''category'', JStr cat),
                           (js ''total'', JNum (int (length (matching_records d cat)))),
                           (js ''updated'', JStr now),
                           (js ''articles'', JArr (take 50 sorted))])),
          Inr (length (matching_records d cat))))"
  using assms by (auto simp: updateIndex_def Let_def slice0_def length_sort_by)
lemma length_matching_records:
  "length (matching_records d cat) =
     length (filter (\<lambda>(f, content). startsWith f (js ''article_'')
                \<and> (\<exists>fs. content = Parsed (JObj fs) \<and> map_of fs (js ''category'') = Some (JStr cat))) d)"
  by (induction d)
     (auto simp: matching_records_def record_of_cases split: jsonfile.splits json.splits if_splits)

text \<open>
  C5, amended.  The index builder keeps, of the files named \<open>article_...\<close>, those that
  parse to an object whose category is the given one, and skips the others.  When the
  publication dates of the kept records are strings (or absent, or falsy), and the
  platform's comparison \<open>localeCompare\<close> is a total preorder, it writes an index whose
  \<open>total\<close> is the number of kept records and whose \<open>articles\<close> are the first 50 of the
  kept records sorted by publication date, descending in the order of \<open>localeCompare\<close>,
  and it returns that number.
\<close>

theorem updateIndex_rebuild:
  assumes total: "\<forall>a b. lc a b \<le> 0 \<or> lc b a \<le> 0"
    and trans: "\<forall>a b c. lc a b \<le> 0 \<and> lc b c \<le> 0 \<longrightarrow> lc a c \<le> 0"
    and typed: "\<forall>a \<in> set (matching_records d cat). published_key a \<noteq> None"
  shows "\<exists>sorted.
      updateIndex lc now d cat =
        (writeFileSync d (index_file cat)
           (Parsed (JObj [(js ''category'', JStr cat),
                          (js ''total'', JNum (int (length (matching_records d cat)))),
                          (js ''updated'', JStr now),
                          (js ''articles'', JArr (take 50 sorted))])),
         Inr (length (matching_records d cat)))
    \<and> mset sorted = mset (matching_records d cat)
    \<and> sorted_wrt (\<lambda>a b. lc (published_or_empty b) (published_or_empty a) \<le> 0) sorted
    \<and> set (matching_records d cat) =
         {JObj fs | f fs. (f, Parsed (JObj fs)) \<in> set d \<and> startsWith f (js ''article_'')
                       \<and> map_of fs (js ''category'') = Some (JStr cat)}
    \<and> length (matching_records d cat) =
         length (filter (\<lambda>(f, content). startsWith f (js ''article_'')
                    \<and> (\<exists>fs. content = Parsed (JObj fs)
                            \<and> map_of fs (js ''category'') = Some (JStr cat))) d)"
proof -
  let ?cmp = "\<lambda>a b. lc (published_or_empty b) (published_or_empty a)"
  let ?sorted = "sort_by ?cmp (matching_records d cat)"
  have 1: "sorted_wrt (\<lambda>a b. ?cmp a b \<le> 0) ?sorted"
  proof (rule sorted_sort_by)
    show "?cmp a b \<le> 0 \<or> ?cmp b a \<le> 0" for a b using total by blast
    show "?cmp a b \<le> 0 \<Longrightarrow> ?cmp b c \<le> 0 \<Longrightarrow> ?cmp a c \<le> 0" for a b c using trans by blast
  qed
  have 2: "mset ?sorted = mset (matching_records d cat)" by (rule mset_sort_by)
  have 3: "updateIndex lc now d cat =
        (writeFileSync d (index_file cat)
           (Parsed (JObj [(js ''category'', JStr cat),
                          (js ''total'', JNum (int (length (matching_records d cat)))),
                          (js ''updated'', JStr now),
                          (js ''articles'', JArr (take 50 ?sorted))])),
         Inr (length (matching_records d cat)))"
    using updateIndex_typed [OF typed] by (simp add: Let_def)
  from 1 2 3 set_matching_records [of d cat] length_matching_records [of d cat]
  show ?thesis by blast
qed
lemma matching_records_append:
  "matching_records (d1 @ d2) cat = matching_records d1 cat @ matching_records d2 cat"
  by (simp add: matching_records_def)

lemma matching_records_scenario:
  "matching_records (map (scenario_file c) ns) cat
     = (if c = cat then map (scenario_record c) ns else [])"
  by (induction ns)
     (auto simp: matching_records_def record_of_def scenario_file_def scenario_record_def
        startsWith_def js_def)

lemma matching_records_scenario_dir:
  "matching_records scenario_dir (js ''finante'') = map (scenario_record (js ''finante'')) [0..<60]"
  by (simp add: scenario_dir_def matching_records_append matching_records_scenario js_def)

lemma published_key_scenario_record:
  "published_key (scenario_record c i) \<noteq> None"
  by (simp add: published_key_def scenario_record_def js_def)

theorem updateIndex_rebuild_witness:
  "\<exists>arts.
      updateIndex compare_units (js ''2025-11-03T08:00:00.000Z'') scenario_dir (js ''finante'') =
        (writeFileSync scenario_dir (index_file (js ''finante''))
           (Parsed (JObj [(js ''category'', JStr (js ''finante'')),
                          (js ''total'', JNum 60),
                          (js ''updated'', JStr (js ''2025-11-03T08:00:00.000Z'')),
                          (js ''articles'', JArr arts)])),
         Inr 60)
    \<and> length arts = 50
    \<and> sorted_wrt (\<lambda>a b. compare_units (published_or_empty b) (published_or_empty a) \<le> 0) arts"
proof -
  have total: "\<forall>a b. compare_units a b \<le> 0 \<or> compare_units b a \<le> 0"
    using compare_units_total by blast
  have trans: "\<forall>a b c. compare_units a b \<le> 0 \<and> compare_units b c \<le> 0 \<longrightarrow> compare_units a c \<le> 0"
    using compare_units_trans by blast
  have typed: "\<forall>a \<in> set (matching_records scenario_dir (js ''finante'')). published_key a \<noteq> None"
    using published_key_scenario_record by (auto simp: matching_records_scenario_dir)
  have len: "length (matching_records scenario_dir (js ''finante'')) = 60"
    by (simp add: matching_records_scenario_dir)
  obtain sorted where s:
      "updateIndex compare_units (js ''2025-11-03T08:00:00.000Z'') scenario_dir (js ''finante'') =
        (writeFileSync scenario_dir (index_file (js ''finante''))
           (Parsed (JObj [(js ''category'', JStr (js ''finante'')),
                          (js ''total'', JNum (int (length (matching_records scenario_dir (js ''finante''))))),
                          (js ''updated'', JStr (js ''2025-11-03T08:00:00.000Z'')),
                          (js ''articles'', JArr (take 50 sorted))])),
         Inr (length (matching_records scenario_dir (js ''finante''))))"
      "mset sorted = mset (matching_records scenario_dir (js ''finante''))"
      "sorted_wrt (\<lambda>a b. compare_units (published_or_empty b) (published_or_empty a) \<le> 0) sorted"
    using updateIndex_rebuild [OF total trans typed, of "js ''2025-11-03T08:00:00.000Z''"] by blast
  have "length sorted = 60"
    using s(2) len by (metis size_mset)
  then have 1: "length (take 50 sorted) = 50" by simp
  have 2: "sorted_wrt (\<lambda>a b. compare_units (published_or_empty b) (published_or_empty a) \<le> 0)
             (take 50 sorted)"
    using s(3) by (rule sorted_wrt_take)
  from s(1) len 1 2 show ?thesis by (simp only: of_nat_numeral) blast
qed

text \<open>
  C5, as stated, fails.  Where the platform's collation is not the comparison of code
  units (here: letters compared alphabetically before their case), the record published
  "Tue, 04 Nov 2025" is listed before the one published "mar, 04 nov 2025", although its
  date is the smaller string in the comparison by code units.  And with two records of
  the category whose \<open>published\<close> is a number, the comparison function raises a
  TypeError, whatever the collation: no index is written and no count returned.
\<close>

theorem updateIndex_lexical_counterexample:
  "updateIndex collate (js ''2025-11-05T06:00:00.000Z'') two_feeds_dir (js ''finante'') =
     (writeFileSync two_feeds_dir (index_file (js ''finante''))
        (Parsed (JObj [(js ''category'', JStr (js ''finante'')),
                       (js ''total'', JNum 2),
                       (js ''updated'', JStr (js ''2025-11-05T06:00:00.000Z'')),
                       (js ''articles'', JArr [record_Tue, record_mar])])),
      Inr 2)
   \<and> compare_units (published_or_empty record_Tue) (published_or_empty record_mar) < 0
   \<and> updateIndex compare_units (js ''2025-11-05T06:00:00.000Z'') numeric_dir (js ''finante'')
       = (numeric_dir, Inl TypeError)"
  by (simp add: updateIndex_def matching_records_def record_of_def two_feeds_dir_def
      numeric_dir_def record_Tue_def record_mar_def published_key_def published_or_empty_def
      sort_by_def collate_def fold_case_def startsWith_def slice0_def js_def Let_def)

section \<open>Properties of the run\<close>

lemma Set_has_JStr [simp]: "Set_has s (JStr h) \<longleftrightarrow> JStr h \<in> set s"
  by (simp add: Set_has_def)

lemma Set_add_JStr: "Set_add s (JStr h) = (if JStr h \<in> set s then s else s @ [JStr h])"
  by (simp add: Set_add_def)

lemma collect_result:
  "collect P iv es seen acc = (seen', out) \<Longrightarrow>
     \<exists>new. out = acc @ new \<and> seen' = seen @ map (\<lambda>ah. JStr (snd ah)) new
       \<and> distinct (map snd new)
       \<and> (\<forall>ah \<in> set new. JStr (snd ah) \<notin> set seen)
       \<and> (\<forall>ah \<in> set new. \<exists>e \<in> set es. entry_title e \<noteq> [] \<and> entry_url e \<noteq> []
             \<and> snd ah = hashUrl (digest P) (entry_url e) \<and> fst ah = make_article P iv e)
       \<and> (\<not> at_cap (maxArticles iv) (length out) \<longrightarrow>
             (\<forall>e \<in> set es. entry_title e \<noteq> [] \<and> entry_url e \<noteq> [] \<longrightarrow>
                JStr (hashUrl (digest P) (entry_url e)) \<in> set seen'))
       \<and> (\<forall>n. length acc < n \<and> n < length out \<longrightarrow> \<not> at_cap (maxArticles iv) n)"
proof (induction es arbitrary: seen acc)
  case Nil
  then show ?case by auto
next
  case (Cons e es)
  let ?h = "hashUrl (digest P) (entry_url e)"
  let ?ah = "(make_article P iv e, ?h)"
  show ?case
  proof (cases "entry_title e = [] \<or> entry_url e = [] \<or> JStr ?h \<in> set seen")
    case True
    then have "collect P iv es seen acc = (seen', out)"
      using Cons.prems by (auto split: if_splits)
    from Cons.IH [OF this] obtain new where new:
      "out = acc @ new" "seen' = seen @ map (\<lambda>ah. JStr (snd ah)) new"
      "distinct (map snd new)" "\<forall>ah \<in> set new. JStr (snd ah) \<notin> set seen"
      "\<forall>ah \<in> set new. \<exists>e \<in> set es. entry_title e \<noteq> [] \<and> entry_url e \<noteq> []
             \<and> snd ah = hashUrl (digest P) (entry_url e) \<and> fst ah = make_article P iv e"
      "\<not> at_cap (maxArticles iv) (length out) \<longrightarrow>
             (\<forall>e \<in> set es. entry_title e \<noteq> [] \<and> entry_url e \<noteq> [] \<longrightarrow>
                JStr (hashUrl (digest P) (entry_url e)) \<in> set seen')"
      "\<forall>n. length acc < n \<and> n < length out \<longrightarrow> \<not> at_cap (maxArticles iv) n"
      by blast
    have 5: "\<forall>ah \<in> set new. \<exists>e' \<in> set (e # es). entry_title e' \<noteq> [] \<and> entry_url e' \<noteq> []
             \<and> snd ah = hashUrl (digest P) (entry_url e') \<and> fst ah = make_article P iv e'"
      using new(5) by auto
    have 6: "\<not> at_cap (maxArticles iv) (length out) \<longrightarrow>
             (\<forall>e' \<in> set (e # es). entry_title e' \<noteq> [] \<and> entry_url e' \<noteq> [] \<longrightarrow>
                JStr (hashUrl (digest P) (entry_url e')) \<in> set seen')"
      using new(6) new(2) True by auto
    from new(1-4) 5 6 new(7) show ?thesis by blast
  next
    case False
    then have fresh: "entry_title e \<noteq> []" "entry_url e \<noteq> []" "JStr ?h \<notin> set seen" by auto
    then have add: "Set_add seen (JStr ?h) = seen @ [JStr ?h]" by (simp add: Set_add_JStr)
    show ?thesis
    proof (cases "at_cap (maxArticles iv) (Suc (length acc))")
      case True
      then have res: "seen' = seen @ [JStr ?h]" "out = acc @ [?ah]"
        using Cons.prems fresh add by auto
      have "out = acc @ [?ah] \<and> seen' = seen @ map (\<lambda>ah. JStr (snd ah)) [?ah]
           \<and> distinct (map snd [?ah])
           \<and> (\<forall>ah \<in> set [?ah]. JStr (snd ah) \<notin> set seen)
           \<and> (\<forall>ah \<in> set [?ah]. \<exists>e' \<in> set (e # es). entry_title e' \<noteq> [] \<and> entry_url e' \<noteq> []
                 \<and> snd ah = hashUrl (digest P) (entry_url e') \<and> fst ah = make_article P iv e')
           \<and> (\<not> at_cap (maxArticles iv) (length out) \<longrightarrow>
                 (\<forall>e' \<in> set (e # es). entry_title e' \<noteq> [] \<and> entry_url e' \<noteq> [] \<longrightarrow>
                    JStr (hashUrl (digest P) (entry_url e')) \<in> set seen'))
           \<and> (\<forall>n. length acc < n \<and> n < length out \<longrightarrow> \<not> at_cap (maxArticles iv) n)"
        using res fresh True by auto
      then show ?thesis by blast
    next
      case nocap: False
      then have "collect P iv es (seen @ [JStr ?h]) (acc @ [?ah]) = (seen', out)"
        using Cons.prems fresh add by auto
      from Cons.IH [OF this] obtain new where new:
        "out = (acc @ [?ah]) @ new" "seen' = (seen @ [JStr ?h]) @ map (\<lambda>ah. JStr (snd ah)) new"
        "distinct (map snd new)" "\<forall>ah \<in> set new. JStr (snd ah) \<notin> set (seen @ [JStr ?h])"
        "\<forall>ah \<in> set new. \<exists>e \<in> set es. entry_title e \<noteq> [] \<and> entry_url e \<noteq> []
               \<and> snd ah = hashUrl (digest P) (entry_url e) \<and> fst ah = make_article P iv e"
        "\<not> at_cap (maxArticles iv) (length out) \<longrightarrow>
               (\<forall>e \<in> set es. entry_title e \<noteq> [] \<and> entry_url e \<noteq> [] \<longrightarrow>
                  JStr (hashUrl (digest P) (entry_url e)) \<in> set seen')"
        "\<forall>n. length (acc @ [?ah]) < n \<and> n < length out \<longrightarrow> \<not> at_cap (maxArticles iv) n"
        by blast
      have 1: "out = acc @ (?ah # new)" using new(1) by simp
      have 2: "seen' = seen @ map (\<lambda>ah. JStr (snd ah)) (?ah # new)" using new(2) by simp
      have 3: "distinct (map snd (?ah # new))" using new(3,4) by force
      have 4: "\<forall>ah \<in> set (?ah # new). JStr (snd ah) \<notin> set seen" using new(4) fresh by auto
      have 5: "\<forall>ah \<in> set (?ah # new). \<exists>e' \<in> set (e # es). entry_title e' \<noteq> [] \<and> entry_url e' \<noteq> []
               \<and> snd ah = hashUrl (digest P) (entry_url e') \<and> fst ah = make_article P iv e'"
        using new(5) fresh by auto
      have 6: "\<not> at_cap (maxArticles iv) (length out) \<longrightarrow>
               (\<forall>e' \<in> set (e # es). entry_title e' \<noteq> [] \<and> entry_url e' \<noteq> [] \<longrightarrow>
                  JStr (hashUrl (digest P) (entry_url e')) \<in> set seen')"
        using new(6) new(2) by auto
      have 7: "\<forall>n. length acc < n \<and> n < length out \<longrightarrow> \<not> at_cap (maxArticles iv) n"
      proof (intro allI impI)
        fix n assume n: "length acc < n \<and> n < length out"
        show "\<not> at_cap (maxArticles iv) n"
        proof (cases "n = Suc (length acc)")
          case True
          then show ?thesis using nocap by simp
        next
          case False
          then have "length (acc @ [?ah]) < n" using n by simp
          then show ?thesis using new(7) n by blast
        qed
      qed
      from 1 2 3 4 5 6 7 show ?thesis by blast
    qed
  qed
qed

lemma collect_length: "length acc \<le> length (snd (collect P iv xs seen acc))"
proof -
  obtain s a where c: "collect P iv xs seen acc = (s, a)"
    by (cases "collect P iv xs seen acc")
  from collect_result [OF c] obtain new where "a = acc @ new" by blast
  then show ?thesis using c by simp
qed

lemma collect_snoc:
  "collect P iv (xs @ [e]) seen acc =
     (case collect P iv xs seen acc of
        (s, a) \<Rightarrow>
          if entry_title e = [] \<or> entry_url e = []
             \<or> JStr (hashUrl (digest P) (entry_url e)) \<in> set s
             \<or> (length acc < length a \<and> at_cap (maxArticles iv) (length a))
          then (s, a)
          else (s @ [JStr (hashUrl (digest P) (entry_url e))],
                a @ [(make_article P iv e, hashUrl (digest P) (entry_url e))]))"
proof (induction xs arbitrary: seen acc)
  case Nil
  show ?case by (simp add: Set_add_JStr)
next
  case (Cons x xs)
  let ?hx = "hashUrl (digest P) (entry_url x)"
  let ?ax = "(make_article P iv x, ?hx)"
  show ?case
  proof (cases "entry_title x = [] \<or> entry_url x = [] \<or> JStr ?hx \<in> set seen")
    case True
    then have 1: "collect P iv ((x # xs) @ [e]) seen acc = collect P iv (xs @ [e]) seen acc"
      and 2: "collect P iv (x # xs) seen acc = collect P iv xs seen acc"
      by auto
    show ?thesis unfolding 1 2 by (rule Cons.IH)
  next
    case False
    then have add: "Set_add seen (JStr ?hx) = seen @ [JStr ?hx]" by (simp add: Set_add_JStr)
    show ?thesis
    proof (cases "at_cap (maxArticles iv) (Suc (length acc))")
      case True
      then show ?thesis using False add by simp
    next
      case nocap: False
      have 1: "collect P iv ((x # xs) @ [e]) seen acc
                 = collect P iv (xs @ [e]) (seen @ [JStr ?hx]) (acc @ [?ax])"
        and 2: "collect P iv (x # xs) seen acc
                 = collect P iv xs (seen @ [JStr ?hx]) (acc @ [?ax])"
        using False nocap add by auto
      obtain s a where c: "collect P iv xs (seen @ [JStr ?hx]) (acc @ [?ax]) = (s, a)"
        by (cases "collect P iv xs (seen @ [JStr ?hx]) (acc @ [?ax])")
      have "length (acc @ [?ax]) \<le> length a"
        using collect_length [of "acc @ [?ax]" P iv xs "seen @ [JStr ?hx]"] c by simp
      then have ge: "Suc (length acc) \<le> length a" by simp
      have "(length (acc @ [?ax]) < length a \<and> at_cap (maxArticles iv) (length a))
              \<longleftrightarrow> (length acc < length a \<and> at_cap (maxArticles iv) (length a))"
      proof (cases "length a = Suc (length acc)")
        case True
        then show ?thesis using nocap by simp
      next
        case False
        then show ?thesis using ge by auto
      qed
      then show ?thesis
        unfolding 1 2 using Cons.IH [of "seen @ [JStr ?hx]" "acc @ [?ax]"] c by simp
    qed
  qed
qed

lemma url_make_article: "url (make_article P iv e) = entry_url e"
  by (simp add: make_article_def generateMeta_def Let_def)

lemma category_make_article: "category (make_article P iv e) = js ''finante''"
  by (simp add: make_article_def generateMeta_def Let_def)

lemma distinct_constant_length: "distinct xs \<Longrightarrow> \<forall>x \<in> set xs. x = c \<Longrightarrow> length xs \<le> 1"
  by (cases xs; cases "tl xs") auto

text \<open>
  C2, as stated, fails: an entry without a title is skipped although its fingerprint is
  not in the set, and so is an entry that comes after the cap on new articles was
  reached.
\<close>

theorem collect_rejects_unseen_counterexample:
  "\<not> Set_has [] (JStr (hashUrl (digest example_platform) (entry_url untitled_entry)))
   \<and> collect example_platform example_invocation [untitled_entry] [] [] = ([], [])
   \<and> collect example_platform (example_invocation\<lparr>maxArticles := Some 1\<rparr>)
        [example_entry, second_entry] [] []
      = ([JStr (js ''66389231b7e4'')],
         [(make_article example_platform (example_invocation\<lparr>maxArticles := Some 1\<rparr>) example_entry,
           js ''66389231b7e4'')])
   \<and> \<not> Set_has [JStr (js ''66389231b7e4'')]
         (JStr (hashUrl (digest example_platform) (entry_url second_entry)))"
  by (simp add: untitled_entry_def example_entry_def second_entry_def example_platform_def
      example_invocation_def hashUrl_def slice0_def example_digest_def at_cap_def Set_add_def
      js_def)

text \<open>
  C2, amended.  Within one run, let the loop have gone through the entries \<open>es\<close>, with
  the in-memory set \<open>s\<close> and the accepted articles \<open>a\<close> as they stand then.  The next entry
  is rejected, set and list staying as they are, if and only if its title or its URL is
  empty, or its fingerprint is in \<open>s\<close>, or the cap was reached by an earlier entry (an
  article was accepted and the number of accepted articles is at least the cap).
  Otherwise it is accepted: its article is put last in the list and its fingerprint into
  the set, which is the set the entry after it is checked against.  So the accepted
  articles have different fingerprints, none of which was in the set the loop started
  with; the set is the first one followed by the fingerprints accepted; every accepted
  article is made from an entry with a title and a URL; and no two accepted articles
  have the same URL.
\<close>

theorem collect_accepts:
  assumes "collect P iv es seen [] = (s, a)"
  shows "collect P iv [] seen [] = (seen, [])
   \<and> collect P iv (es @ [e]) seen [] =
       (if entry_title e = [] \<or> entry_url e = []
           \<or> JStr (hashUrl (digest P) (entry_url e)) \<in> set s
           \<or> (a \<noteq> [] \<and> at_cap (maxArticles iv) (length a))
        then (s, a)
        else (s @ [JStr (hashUrl (digest P) (entry_url e))],
              a @ [(make_article P iv e, hashUrl (digest P) (entry_url e))]))
   \<and> distinct (map snd a)
   \<and> (\<forall>ah \<in> set a. JStr (snd ah) \<notin> set seen
         \<and> (\<exists>e \<in> set es. entry_title e \<noteq> [] \<and> entry_url e \<noteq> []
               \<and> snd ah = hashUrl (digest P) (entry_url e) \<and> fst ah = make_article P iv e))
   \<and> s = seen @ map (\<lambda>ah. JStr (snd ah)) a
   \<and> (\<not> at_cap (maxArticles iv) (length a) \<longrightarrow>
        (\<forall>e \<in> set es. entry_title e \<noteq> [] \<and> entry_url e \<noteq> [] \<longrightarrow>
           JStr (hashUrl (digest P) (entry_url e)) \<in> set seen
           \<or> hashUrl (digest P) (entry_url e) \<in> set (map snd a)))
   \<and> (\<forall>n. 0 < n \<and> n < length a \<longrightarrow> \<not> at_cap (maxArticles iv) n)
   \<and> (\<forall>u. length (filter (\<lambda>ah. url (fst ah) = u) a) \<le> 1)"
proof -
  have base: "collect P iv [] seen [] = (seen, [])" by simp
  have step: "collect P iv (es @ [e]) seen [] =
       (if entry_title e = [] \<or> entry_url e = []
           \<or> JStr (hashUrl (digest P) (entry_url e)) \<in> set s
           \<or> (a \<noteq> [] \<and> at_cap (maxArticles iv) (length a))
        then (s, a)
        else (s @ [JStr (hashUrl (digest P) (entry_url e))],
              a @ [(make_article P iv e, hashUrl (digest P) (entry_url e))]))"
    using collect_snoc [of P iv es e seen "[]"] assms by simp
  from collect_result [OF assms] have r:
      "s = seen @ map (\<lambda>ah. JStr (snd ah)) a"
      "distinct (map snd a)"
      "\<forall>ah \<in> set a. JStr (snd ah) \<notin> set seen"
      "\<forall>ah \<in> set a. \<exists>e \<in> set es. entry_title e \<noteq> [] \<and> entry_url e \<noteq> []
             \<and> snd ah = hashUrl (digest P) (entry_url e) \<and> fst ah = make_article P iv e"
      "\<not> at_cap (maxArticles iv) (length a) \<longrightarrow>
             (\<forall>e \<in> set es. entry_title e \<noteq> [] \<and> entry_url e \<noteq> [] \<longrightarrow>
                JStr (hashUrl (digest P) (entry_url e)) \<in> set s)"
      "\<forall>n. 0 < n \<and> n < length a \<longrightarrow> \<not> at_cap (maxArticles iv) n"
    by auto
  have cap: "\<not> at_cap (maxArticles iv) (length a) \<longrightarrow>
        (\<forall>e \<in> set es. entry_title e \<noteq> [] \<and> entry_url e \<noteq> [] \<longrightarrow>
           JStr (hashUrl (digest P) (entry_url e)) \<in> set seen
           \<or> hashUrl (digest P) (entry_url e) \<in> set (map snd a))"
    using r(5) unfolding r(1) by auto
  have one: "length (filter (\<lambda>ah. url (fst ah) = u) a) \<le> 1" for u
  proof -
    let ?xs = "filter (\<lambda>ah. url (fst ah) = u) a"
    have "distinct (map snd ?xs)" using r(2) by (rule distinct_map_filter)
    moreover have "\<forall>h \<in> set (map snd ?xs). h = hashUrl (digest P) u"
      using r(4) url_make_article by fastforce
    ultimately have "length (map snd ?xs) \<le> 1" by (rule distinct_constant_length)
    then show ?thesis by simp
  qed
  from base step r(1-4) cap r(6) one show ?thesis by blast
qed

text \<open>
  Three entries, the third with the URL of the first: the third is rejected, its
  fingerprint being in the set.  And with a cap of 0 the first entry that has a title,
  a URL and a new fingerprint is accepted, and the next one is rejected.
\<close>

theorem collect_accepts_witness:
  "collect example_platform example_invocation [example_entry, untitled_entry, example_entry] [] []
     = ([JStr (js ''66389231b7e4'')],
        [(make_article example_platform example_invocation example_entry, js ''66389231b7e4'')])
   \<and> collect example_platform (example_invocation\<lparr>maxArticles := Some 0\<rparr>)
        [example_entry, second_entry] [] []
     = ([JStr (js ''66389231b7e4'')],
        [(make_article example_platform (example_invocation\<lparr>maxArticles := Some 0\<rparr>) example_entry,
          js ''66389231b7e4'')])"
proof -
  let ?P = example_platform and ?iv = example_invocation
  let ?capped = "example_invocation\<lparr>maxArticles := Some 0\<rparr>"
  let ?h = "js ''66389231b7e4''"
  have h: "hashUrl (digest example_platform) (entry_url example_entry) = ?h"
    by (simp add: example_platform_def example_entry_def hashUrl_def slice0_def
        example_digest_def js_def)
  have e: "entry_title example_entry \<noteq> []" "entry_url example_entry \<noteq> []"
      "entry_title second_entry \<noteq> []" "entry_url second_entry \<noteq> []"
    by (simp_all add: example_entry_def second_entry_def js_def)
  have two: "collect ?P ?iv [example_entry, untitled_entry] [] []
               = ([JStr ?h], [(make_article ?P ?iv example_entry, ?h)])"
    by (simp add: untitled_entry_def example_entry_def example_platform_def
        example_invocation_def hashUrl_def slice0_def example_digest_def at_cap_def Set_add_def
        js_def)
  have 1: "collect ?P ?iv [example_entry, untitled_entry, example_entry] [] []
               = ([JStr ?h], [(make_article ?P ?iv example_entry, ?h)])"
    using collect_accepts [OF two, of example_entry] h by (simp del: collect.simps)
  have none: "collect ?P ?capped [] [] [] = ([], [])" by simp
  have first: "collect ?P ?capped [example_entry] [] []
               = ([JStr ?h], [(make_article ?P ?capped example_entry, ?h)])"
    using collect_accepts [OF none, of example_entry] h e by (simp del: collect.simps)
  have 2: "collect ?P ?capped [example_entry, second_entry] [] []
               = ([JStr ?h], [(make_article ?P ?capped example_entry, ?h)])"
    using collect_accepts [OF first, of second_entry] by (simp add: at_cap_def del: collect.simps)
  from 1 2 show ?thesis by blast
qed

lemma article_file_inject: "article_file h = article_file h' \<longleftrightarrow> h = h'"
  by (simp add: article_file_def)

lemma article_file_neq_seen_file: "article_file h \<noteq> seen_file"
  by (simp add: article_file_def seen_file_def js_def)

lemma article_file_neq_index_file: "article_file h \<noteq> index_file c"
  by (simp add: article_file_def index_file_def js_def)

lemma index_file_neq_seen_file: "index_file c \<noteq> seen_file"
  by (simp add: index_file_def seen_file_def js_def)

lemma updateIndex_dir:
  "fst (updateIndex lc now d c) = d \<or> (\<exists>x. fst (updateIndex lc now d c) = writeFileSync d (index_file c) x)"
  by (auto simp: updateIndex_def Let_def)

lemma map_of_updateIndex:
  "f \<noteq> index_file c \<Longrightarrow> map_of (fst (updateIndex lc now d c)) f = map_of d f"
  using updateIndex_dir [of lc now d c] by (auto simp: map_of_writeFileSync)

lemma data_dir_write_article:
  "data_dir (write_article P dk ah) = saveArticleMeta (data_dir dk) (fst ah) (snd ah)"
  by (simp add: write_article_def)

lemma data_dir_foldl_write_article:
  "f \<notin> (\<lambda>ah. article_file (snd ah)) ` set new \<Longrightarrow>
     map_of (data_dir (foldl (write_article P) dk new)) f = map_of (data_dir dk) f"
proof (induction new arbitrary: dk)
  case Nil
  show ?case by simp
next
  case (Cons ah new)
  have "map_of (data_dir (foldl (write_article P) (write_article P dk ah) new)) f
        = map_of (data_dir (write_article P dk ah)) f"
    using Cons.prems by (intro Cons.IH) auto
  also have "\<dots> = map_of (data_dir dk) f"
    using Cons.prems
    by (simp add: data_dir_write_article saveArticleMeta_def map_of_writeFileSync)
  finally show ?case by simp
qed

lemma run_dry: "dryRun iv \<Longrightarrow> fst (run P iv dk) = dk"
  by (simp add: run_def Let_def split: prod.splits)

lemma run_newArticles:
  "fst (snd (run P iv dk)) = snd (collect P iv (allEntries iv) (loadSeen (data_dir dk) seen_file) [])"
  by (simp add: run_def Let_def split: prod.splits)

lemma run_seen_file:
  assumes "\<not> dryRun iv"
  shows "map_of (data_dir (fst (run P iv dk))) seen_file =
     Some (Parsed (JObj [(js ''hashes'',
                          JArr (fst (collect P iv (allEntries iv) (loadSeen (data_dir dk) seen_file) []))),
                         (js ''updated'', JStr (clock_saveSeen iv))]))"
proof -
  obtain seen new where c: "collect P iv (allEntries iv) (loadSeen (data_dir dk) seen_file) [] = (seen, new)"
    by (cases "collect P iv (allEntries iv) (loadSeen (data_dir dk) seen_file) []")
  let ?d2 = "saveSeen (clock_saveSeen iv) (data_dir (foldl (write_article P) dk new)) seen_file seen"
  have "data_dir (fst (run P iv dk))
        = fst (updateIndex (collation P) (clock_updateIndex iv) ?d2 (js ''finante''))"
    using assms c by (simp add: run_def Let_def split: prod.splits)
  then have "map_of (data_dir (fst (run P iv dk))) seen_file = map_of ?d2 seen_file"
    using map_of_updateIndex [of seen_file "js ''finante''"] index_file_neq_seen_file
    by metis
  then show ?thesis using c by (simp add: saveSeen_def map_of_writeFileSync)
qed

lemma run_other_files:
  assumes "f \<noteq> seen_file" "f \<noteq> index_file (js ''finante'')"
    and "f \<notin> (\<lambda>ah. article_file (snd ah)) ` set (fst (snd (run P iv dk)))"
  shows "map_of (data_dir (fst (run P iv dk))) f = map_of (data_dir dk) f"
proof (cases "dryRun iv")
  case True
  then show ?thesis by (simp add: run_dry)
next
  case False
  obtain seen new where c: "collect P iv (allEntries iv) (loadSeen (data_dir dk) seen_file) [] = (seen, new)"
    by (cases "collect P iv (allEntries iv) (loadSeen (data_dir dk) seen_file) []")
  let ?d1 = "data_dir (foldl (write_article P) dk new)"
  let ?d2 = "saveSeen (clock_saveSeen iv) ?d1 seen_file seen"
  have new: "fst (snd (run P iv dk)) = new" using c by (simp add: run_newArticles)
  have "data_dir (fst (run P iv dk))
        = fst (updateIndex (collation P) (clock_updateIndex iv) ?d2 (js ''finante''))"
    using False c by (simp add: run_def Let_def split: prod.splits)
  then have "map_of (data_dir (fst (run P iv dk))) f = map_of ?d2 f"
    using map_of_updateIndex [OF assms(2)] by metis
  also have "\<dots> = map_of ?d1 f"
    using assms(1) by (simp add: saveSeen_def map_of_writeFileSync)
  also have "\<dots> = map_of (data_dir dk) f"
    using assms(3) new by (intro data_dir_foldl_write_article) simp
  finally show ?thesis .
qed
lemma loadSeen_hashes_array:
  "map_of d f = Some (Parsed (JObj [(js ''hashes'', JArr xs), (js ''updated'', JStr t)])) \<Longrightarrow>
     loadSeen d f = foldl Set_add [] xs"
  by (simp add: loadSeen_def loadSeen_try_def)

lemma run_step:
  assumes "run P iv dk = (dk', new, err)"
  shows "distinct (written iv new)
   \<and> (\<forall>h \<in> set (written iv new). JStr h \<notin> set (loadSeen (data_dir dk) seen_file)
         \<and> JStr h \<in> set (loadSeen (data_dir dk') seen_file)
         \<and> (\<exists>e \<in> set (allEntries iv). h = hashUrl (digest P) (entry_url e)))
   \<and> set (loadSeen (data_dir dk) seen_file) \<subseteq> set (loadSeen (data_dir dk') seen_file)
   \<and> (\<forall>h. JStr h \<in> set (loadSeen (data_dir dk) seen_file) \<longrightarrow>
         map_of (data_dir dk') (article_file h) = map_of (data_dir dk) (article_file h))"
proof (cases "dryRun iv")
  case True
  then have "dk' = dk" using assms run_dry [of iv P dk] by simp
  then show ?thesis using True by (simp add: written_def)
next
  case False
  let ?seen0 = "loadSeen (data_dir dk) seen_file"
  obtain seen where c: "collect P iv (allEntries iv) ?seen0 [] = (seen, new)"
    using assms run_newArticles [of P iv dk]
    by (cases "collect P iv (allEntries iv) ?seen0 []") simp
  from collect_result [OF c] have r:
      "seen = ?seen0 @ map (\<lambda>ah. JStr (snd ah)) new"
      "distinct (map snd new)"
      "\<forall>ah \<in> set new. JStr (snd ah) \<notin> set ?seen0"
      "\<forall>ah \<in> set new. \<exists>e \<in> set (allEntries iv). entry_title e \<noteq> [] \<and> entry_url e \<noteq> []
             \<and> snd ah = hashUrl (digest P) (entry_url e) \<and> fst ah = make_article P iv e"
    by auto
  have dk': "dk' = fst (run P iv dk)" and new: "new = fst (snd (run P iv dk))"
    using assms by simp_all
  have "map_of (data_dir dk') seen_file =
     Some (Parsed (JObj [(js ''hashes'', JArr seen), (js ''updated'', JStr (clock_saveSeen iv))]))"
    using run_seen_file [OF False, of P dk] c dk' by simp
  then have "loadSeen (data_dir dk') seen_file = foldl Set_add [] seen"
    by (rule loadSeen_hashes_array)
  then have S': "set (loadSeen (data_dir dk') seen_file) = set seen"
    by (simp add: set_foldl_Set_add)
  have w: "written iv new = map snd new" using False by (simp add: written_def)
  have 1: "distinct (written iv new)" using r(2) w by simp
  have 2: "\<forall>h \<in> set (written iv new). JStr h \<notin> set ?seen0
         \<and> JStr h \<in> set (loadSeen (data_dir dk') seen_file)
         \<and> (\<exists>e \<in> set (allEntries iv). h = hashUrl (digest P) (entry_url e))"
  proof
    fix h assume "h \<in> set (written iv new)"
    then obtain ah where ah: "ah \<in> set new" "h = snd ah" using w by auto
    then have "JStr h \<notin> set ?seen0" using r(3) by blast
    moreover have "JStr h \<in> set seen" using ah r(1) by auto
    moreover have "\<exists>e \<in> set (allEntries iv). h = hashUrl (digest P) (entry_url e)"
      using ah r(4) by blast
    ultimately show "JStr h \<notin> set ?seen0
         \<and> JStr h \<in> set (loadSeen (data_dir dk') seen_file)
         \<and> (\<exists>e \<in> set (allEntries iv). h = hashUrl (digest P) (entry_url e))"
      using S' by simp
  qed
  have 3: "set ?seen0 \<subseteq> set (loadSeen (data_dir dk') seen_file)"
    using S' r(1) by auto
  have 4: "map_of (data_dir dk') (article_file h) = map_of (data_dir dk) (article_file h)"
    if "JStr h \<in> set ?seen0" for h
  proof -
    have "article_file h \<notin> (\<lambda>ah. article_file (snd ah)) ` set new"
      using that r(3) by (auto simp: article_file_inject)
    then show ?thesis
      using run_other_files [of "article_file h" P iv dk] dk' new
        article_file_neq_seen_file article_file_neq_index_file by simp
  qed
  from 1 2 3 4 show ?thesis by blast
qed

text \<open>
  C1.  Over any sequence of runs of the agent, from any disk: no fingerprint gets a page
  and a record twice; and a fingerprint that is in the persisted set when the sequence
  starts gets none at all, stays in the persisted set, and its record file is left as it
  was.  Every fingerprint written is the fingerprint of the URL of an entry of one of
  the runs.
\<close>

theorem runs_no_duplicate_record:
  assumes "runs P ivs dk = (dk', hs)"
  shows "distinct hs
   \<and> (\<forall>h \<in> set hs. \<exists>iv \<in> set ivs. \<exists>e \<in> set (allEntries iv). h = hashUrl (digest P) (entry_url e))
   \<and> (\<forall>h. JStr h \<in> set (loadSeen (data_dir dk) seen_file) \<longrightarrow>
         h \<notin> set hs
         \<and> JStr h \<in> set (loadSeen (data_dir dk') seen_file)
         \<and> map_of (data_dir dk') (article_file h) = map_of (data_dir dk) (article_file h))"
  using assms
proof (induction ivs arbitrary: dk dk' hs)
  case Nil
  then show ?case by simp
next
  case (Cons iv ivs)
  obtain dk1 new err where run1: "run P iv dk = (dk1, new, err)"
    by (cases "run P iv dk") auto
  obtain hs' where rest: "runs P ivs dk1 = (dk', hs')" and hs: "hs = written iv new @ hs'"
    using Cons.prems run1 by (auto split: prod.splits)
  note step = run_step [OF run1]
  note ih = Cons.IH [OF rest]
  have d: "distinct hs"
    using step ih hs by auto
  have src: "\<forall>h \<in> set hs. \<exists>iv' \<in> set (iv # ivs). \<exists>e \<in> set (allEntries iv').
               h = hashUrl (digest P) (entry_url e)"
    using step ih hs by auto
  have pers: "h \<notin> set hs
         \<and> JStr h \<in> set (loadSeen (data_dir dk') seen_file)
         \<and> map_of (data_dir dk') (article_file h) = map_of (data_dir dk) (article_file h)"
    if "JStr h \<in> set (loadSeen (data_dir dk) seen_file)" for h
  proof -
    have 1: "JStr h \<in> set (loadSeen (data_dir dk1) seen_file)" using that step by blast
    have 2: "h \<notin> set (written iv new)" using that step by blast
    have 3: "map_of (data_dir dk1) (article_file h) = map_of (data_dir dk) (article_file h)"
      using that step by blast
    from ih 1 have "h \<notin> set hs'" "JStr h \<in> set (loadSeen (data_dir dk') seen_file)"
      "map_of (data_dir dk') (article_file h) = map_of (data_dir dk1) (article_file h)"
      by blast+
    with 2 3 hs show ?thesis by simp
  qed
  from d src pers show ?case by blast
qed
lemma snd_runs_Cons:
  "snd (runs P (iv # ivs) dk) =
     written iv (fst (snd (run P iv dk))) @ snd (runs P ivs (fst (run P iv dk)))"
  by (simp split: prod.splits)

lemma example_first_collect:
  "collect example_platform example_invocation [example_entry] [] []
     = ([JStr (js ''66389231b7e4'')],
        [(make_article example_platform example_invocation example_entry, js ''66389231b7e4'')])"
  by (simp add: example_entry_def example_platform_def example_invocation_def hashUrl_def
      slice0_def example_digest_def at_cap_def Set_add_def js_def)

lemma example_second_collect:
  "collect example_platform example_invocation [example_entry] [JStr (js ''66389231b7e4'')] []
     = ([JStr (js ''66389231b7e4'')], [])"
  by (simp add: example_entry_def example_platform_def example_invocation_def hashUrl_def
      slice0_def example_digest_def at_cap_def Set_add_def js_def)

lemma example_invocation_fields:
  "allEntries example_invocation = [example_entry]" "\<not> dryRun example_invocation"
  by (simp_all add: example_invocation_def)

lemma example_first_run_seen:
  "loadSeen (data_dir (fst (run example_platform example_invocation empty_disk))) seen_file
     = [JStr (js ''66389231b7e4'')]"
proof -
  have "loadSeen (data_dir empty_disk) seen_file = []"
    by (simp add: empty_disk_def loadSeen_def)
  then have "map_of (data_dir (fst (run example_platform example_invocation empty_disk))) seen_file =
     Some (Parsed (JObj [(js ''hashes'', JArr [JStr (js ''66389231b7e4'')]),
                         (js ''updated'', JStr (clock_saveSeen example_invocation))]))"
    using run_seen_file [OF example_invocation_fields(2), of example_platform empty_disk]
    by (simp add: example_invocation_fields(1) example_first_collect del: collect.simps)
  then have "loadSeen (data_dir (fst (run example_platform example_invocation empty_disk))) seen_file
     = foldl Set_add [] [JStr (js ''66389231b7e4'')]"
    by (rule loadSeen_hashes_array)
  then show ?thesis by (simp add: Set_add_def Set_has_def)
qed

lemma example_two_runs:
  "snd (runs example_platform [example_invocation, example_invocation] empty_disk)
     = [js ''66389231b7e4'']"
proof -
  have 1: "fst (snd (run example_platform example_invocation empty_disk))
         = [(make_article example_platform example_invocation example_entry, js ''66389231b7e4'')]"
    by (simp add: run_newArticles example_invocation_fields(1) example_first_collect
        empty_disk_def loadSeen_def del: collect.simps)
  have 2: "fst (snd (run example_platform example_invocation
                   (fst (run example_platform example_invocation empty_disk)))) = []"
    by (simp add: run_newArticles example_invocation_fields(1) example_first_run_seen
        example_second_collect del: collect.simps)
  show ?thesis
    by (simp only: snd_runs_Cons 1 2 written_def example_invocation_fields(2) if_False
        runs.simps(1) snd_conv list.map append_Nil2 append_Nil)
qed

theorem runs_no_duplicate_record_witness:
  "snd (runs example_platform [example_invocation, example_invocation] empty_disk)
     = [js ''66389231b7e4'']
   \<and> distinct (snd (runs example_platform [example_invocation, example_invocation] empty_disk))
   \<and> JStr (js ''66389231b7e4'')
       \<in> set (loadSeen (data_dir (fst (run example_platform example_invocation empty_disk))) seen_file)
   \<and> js ''66389231b7e4''
       \<notin> set (snd (runs example_platform [example_invocation]
                     (fst (run example_platform example_invocation empty_disk))))"
proof -
  let ?r2 = "runs example_platform [example_invocation, example_invocation] empty_disk"
  let ?dk1 = "fst (run example_platform example_invocation empty_disk)"
  let ?r1 = "runs example_platform [example_invocation] ?dk1"
  have "?r2 = (fst ?r2, snd ?r2)" by simp
  from runs_no_duplicate_record [OF this] have a: "distinct (snd ?r2)" by blast
  have b: "JStr (js ''66389231b7e4'') \<in> set (loadSeen (data_dir ?dk1) seen_file)"
    by (simp add: example_first_run_seen)
  have "?r1 = (fst ?r1, snd ?r1)" by simp
  from runs_no_duplicate_record [OF this] b have c: "js ''66389231b7e4'' \<notin> set (snd ?r1)"
    by blast
  from example_two_runs a b c show ?thesis by blast
qed
lemma strip_writeFileSync:
  "map_of d f = Some c' \<Longrightarrow> without_updated c' = without_updated c \<Longrightarrow>
     map (\<lambda>(g, x). (g, without_updated x)) (writeFileSync d f c)
       = map (\<lambda>(g, x). (g, without_updated x)) d"
  unfolding writeFileSync_def
  by (induction d) (auto split: if_splits)

lemma matching_records_writeFileSync:
  "\<not> startsWith f (js ''article_'') \<Longrightarrow>
     matching_records (writeFileSync d f c) cat = matching_records d cat"
  unfolding writeFileSync_def
  by (induction d) (auto simp: matching_records_def)

lemma not_article_seen_file: "\<not> startsWith seen_file (js ''article_'')"
  by (simp add: startsWith_def seen_file_def js_def)

lemma not_article_index_file: "\<not> startsWith (index_file c) (js ''article_'')"
  by (simp add: startsWith_def index_file_def js_def)

lemma matching_records_updateIndex:
  "matching_records (fst (updateIndex lc now d c)) cat = matching_records d cat"
  using updateIndex_dir [of lc now d c] not_article_index_file [of c]
  by (auto simp: matching_records_writeFileSync)

lemma updateIndex_again:
  assumes m: "matching_records d' c = matching_records d c"
    and i: "map_of d' (index_file c) = map_of (fst (updateIndex lc now d c)) (index_file c)"
  shows "map (\<lambda>(g, x). (g, without_updated x)) (fst (updateIndex lc now' d' c))
           = map (\<lambda>(g, x). (g, without_updated x)) d'
         \<and> snd (updateIndex lc now' d' c) = snd (updateIndex lc now d c)"
proof (cases "2 \<le> length (matching_records d c) \<and> (\<exists>a \<in> set (matching_records d c). published_key a = None)")
  case True
  then show ?thesis using m by (simp add: updateIndex_def Let_def)
next
  case False
  let ?arts = "sort_by (\<lambda>a b. lc (published_or_empty b) (published_or_empty a)) (matching_records d c)"
  let ?idx = "\<lambda>t. Parsed (JObj [(js ''category'', JStr c),
                             (js ''total'', JNum (int (length ?arts))),
                             (js ''updated'', JStr t),
                             (js ''articles'', JArr (slice0 50 ?arts))])"
  have 1: "updateIndex lc now d c = (writeFileSync d (index_file c) (?idx now), Inr (length ?arts))"
    using False by (auto simp: updateIndex_def Let_def)
  have 2: "updateIndex lc now' d' c = (writeFileSync d' (index_file c) (?idx now'), Inr (length ?arts))"
    using False m by (auto simp: updateIndex_def Let_def)
  have "map_of d' (index_file c) = Some (?idx now)"
    using i 1 by (simp add: map_of_writeFileSync)
  moreover have "without_updated (?idx now) = without_updated (?idx now')"
    by (simp add: js_def)
  ultimately have "map (\<lambda>(g, x). (g, without_updated x)) (writeFileSync d' (index_file c) (?idx now'))
           = map (\<lambda>(g, x). (g, without_updated x)) d'"
    by (rule strip_writeFileSync)
  then show ?thesis using 1 2 by simp
qed

lemma foldl_Set_add_distinct:
  "distinct (filter (\<lambda>v. \<not> is_reference v) acc) \<Longrightarrow>
     distinct (filter (\<lambda>v. \<not> is_reference v) (foldl Set_add acc xs))"
  by (induction xs arbitrary: acc) (auto simp: Set_add_def Set_has_def)

lemma foldl_Set_add_id:
  "distinct (filter (\<lambda>v. \<not> is_reference v) (acc @ s)) \<Longrightarrow> foldl Set_add acc s = acc @ s"
proof (induction s arbitrary: acc)
  case Nil
  show ?case by simp
next
  case (Cons x s)
  have "Set_add acc x = acc @ [x]"
    using Cons.prems by (auto simp: Set_add_def Set_has_def)
  moreover have "foldl Set_add (acc @ [x]) s = (acc @ [x]) @ s"
    using Cons.prems by (intro Cons.IH) simp
  ultimately show ?case by simp
qed

lemma loadSeen_distinct: "distinct (filter (\<lambda>v. \<not> is_reference v) (loadSeen d f))"
proof -
  have "distinct (filter (\<lambda>v. \<not> is_reference v) s)" if "new_Set_of v = Inr s" for v s
    using that foldl_Set_add_distinct [of "[]"] by (cases v) auto
  then show ?thesis
    by (auto simp: loadSeen_def loadSeen_try_def split: option.splits jsonfile.splits sum.splits)
qed
lemma run_loadSeen:
  assumes "\<not> dryRun iv"
  shows "loadSeen (data_dir (fst (run P iv dk))) seen_file
           = fst (collect P iv (allEntries iv) (loadSeen (data_dir dk) seen_file) [])"
proof -
  let ?seen0 = "loadSeen (data_dir dk) seen_file"
  obtain seen new where c: "collect P iv (allEntries iv) ?seen0 [] = (seen, new)"
    by (cases "collect P iv (allEntries iv) ?seen0 []")
  from collect_result [OF c] have r:
      "seen = ?seen0 @ map (\<lambda>ah. JStr (snd ah)) new"
      "distinct (map snd new)"
      "\<forall>ah \<in> set new. JStr (snd ah) \<notin> set ?seen0"
    by auto
  have inj: "distinct (map (\<lambda>ah. JStr (snd ah)) new)"
    using r(2) by (simp add: distinct_map inj_on_def)
  have "filter (\<lambda>v. \<not> is_reference v) seen
        = filter (\<lambda>v. \<not> is_reference v) ?seen0 @ map (\<lambda>ah. JStr (snd ah)) new"
    unfolding r(1) by (simp add: filter_map comp_def)
  then have "distinct (filter (\<lambda>v. \<not> is_reference v) ([] @ seen))"
    using loadSeen_distinct [of "data_dir dk" seen_file] inj r(3) by auto
  then have "foldl Set_add [] seen = seen"
    using foldl_Set_add_id [of "[]" seen] by simp
  moreover have "loadSeen (data_dir (fst (run P iv dk))) seen_file = foldl Set_add [] seen"
    using run_seen_file [OF assms, of P dk] c by (intro loadSeen_hashes_array) simp
  ultimately show ?thesis using c by simp
qed

lemma run_twice:
  assumes nd: "\<not> dryRun iv" "\<not> dryRun iv2"
    and none: "fst (snd (run P iv2 (fst (run P iv dk)))) = []"
  shows "output_dir (fst (run P iv2 (fst (run P iv dk)))) = output_dir (fst (run P iv dk))
    \<and> map (\<lambda>(g, x). (g, without_updated x)) (data_dir (fst (run P iv2 (fst (run P iv dk)))))
        = map (\<lambda>(g, x). (g, without_updated x)) (data_dir (fst (run P iv dk)))
    \<and> loadSeen (data_dir (fst (run P iv2 (fst (run P iv dk))))) seen_file
        = loadSeen (data_dir (fst (run P iv dk))) seen_file"
proof -
  let ?dk1 = "fst (run P iv dk)"
  let ?dk2 = "fst (run P iv2 ?dk1)"
  let ?c = "js ''finante''"
  \<comment> \<open>the first run\<close>
  obtain seen1 new1 where c1:
      "collect P iv (allEntries iv) (loadSeen (data_dir dk) seen_file) [] = (seen1, new1)"
    by (cases "collect P iv (allEntries iv) (loadSeen (data_dir dk) seen_file) []")
  let ?e1 = "saveSeen (clock_saveSeen iv) (data_dir (foldl (write_article P) dk new1)) seen_file seen1"
  have d1: "data_dir ?dk1 = fst (updateIndex (collation P) (clock_updateIndex iv) ?e1 ?c)"
    using nd(1) c1 by (simp add: run_def Let_def split: prod.splits)
  have s1: "loadSeen (data_dir ?dk1) seen_file = seen1"
    using run_loadSeen [OF nd(1), of P dk] c1 by simp
  have f1: "map_of (data_dir ?dk1) seen_file =
     Some (Parsed (JObj [(js ''hashes'', JArr seen1), (js ''updated'', JStr (clock_saveSeen iv))]))"
    using run_seen_file [OF nd(1), of P dk] c1 by simp
  \<comment> \<open>the second run\<close>
  obtain seen2 where c2:
      "collect P iv2 (allEntries iv2) (loadSeen (data_dir ?dk1) seen_file) [] = (seen2, [])"
    using none run_newArticles [of P iv2 ?dk1]
    by (cases "collect P iv2 (allEntries iv2) (loadSeen (data_dir ?dk1) seen_file) []") simp
  have seen2: "seen2 = seen1"
    using collect_result [OF c2] s1 by auto
  let ?e2 = "saveSeen (clock_saveSeen iv2) (data_dir ?dk1) seen_file seen1"
  have dk2: "?dk2 = ?dk1\<lparr>data_dir := fst (updateIndex (collation P) (clock_updateIndex iv2) ?e2 ?c)\<rparr>"
    using nd(2) c2 seen2 by (simp add: run_def Let_def split: prod.splits)
  have out: "output_dir ?dk2 = output_dir ?dk1"
    by (subst dk2) simp
  have d2: "data_dir ?dk2 = fst (updateIndex (collation P) (clock_updateIndex iv2) ?e2 ?c)"
    by (subst dk2) simp
  have e2: "map (\<lambda>(g, x). (g, without_updated x)) ?e2
              = map (\<lambda>(g, x). (g, without_updated x)) (data_dir ?dk1)"
    unfolding saveSeen_def
    by (rule strip_writeFileSync [OF f1]) (simp add: js_def)
  have m: "matching_records ?e2 ?c = matching_records ?e1 ?c"
    by (simp add: saveSeen_def matching_records_writeFileSync not_article_seen_file d1
        matching_records_updateIndex)
  have i: "map_of ?e2 (index_file ?c)
             = map_of (fst (updateIndex (collation P) (clock_updateIndex iv) ?e1 ?c)) (index_file ?c)"
    using index_file_neq_seen_file [of ?c] by (simp add: saveSeen_def map_of_writeFileSync d1)
  have "map (\<lambda>(g, x). (g, without_updated x)) (data_dir ?dk2)
          = map (\<lambda>(g, x). (g, without_updated x)) ?e2"
    unfolding d2 using updateIndex_again [OF m i] by blast
  then have dd: "map (\<lambda>(g, x). (g, without_updated x)) (data_dir ?dk2)
          = map (\<lambda>(g, x). (g, without_updated x)) (data_dir ?dk1)"
    using e2 by simp
  have "loadSeen (data_dir ?dk2) seen_file = seen2"
    using run_loadSeen [OF nd(2), of P ?dk1] c2 by simp
  then have ss: "loadSeen (data_dir ?dk2) seen_file = loadSeen (data_dir ?dk1) seen_file"
    using seen2 s1 by simp
  from out dd ss show ?thesis by blast
qed

text \<open>
  C7, as stated, fails: a second run that accepts nothing writes the fingerprint file
  again with the time of the second run, so the file is not the one the first run left.
\<close>

theorem run_twice_files_counterexample:
  "fst (snd (run example_platform later_invocation
              (fst (run example_platform example_invocation empty_disk)))) = []
   \<and> map_of (data_dir (fst (run example_platform later_invocation
                              (fst (run example_platform example_invocation empty_disk))))) seen_file
       = Some (Parsed (JObj [(js ''hashes'', JArr [JStr (js ''66389231b7e4'')]),
                             (js ''updated'', JStr (js ''2025-11-04T07:00:00.000Z''))]))
   \<and> map_of (data_dir (fst (run example_platform example_invocation empty_disk))) seen_file
       = Some (Parsed (JObj [(js ''hashes'', JArr [JStr (js ''66389231b7e4'')]),
                             (js ''updated'', JStr (js ''2025-11-03T07:00:00.000Z''))]))
   \<and> data_dir (fst (run example_platform later_invocation
                       (fst (run example_platform example_invocation empty_disk))))
       \<noteq> data_dir (fst (run example_platform example_invocation empty_disk))"
proof -
  let ?dk1 = "fst (run example_platform example_invocation empty_disk)"
  have later: "allEntries later_invocation = [example_entry]" "\<not> dryRun later_invocation"
      "clock_saveSeen later_invocation = js ''2025-11-04T07:00:00.000Z''"
      "maxArticles later_invocation = maxArticles example_invocation"
    by (simp_all add: later_invocation_def example_invocation_def)
  have clock: "clock_saveSeen example_invocation = js ''2025-11-03T07:00:00.000Z''"
    by (simp add: example_invocation_def)
  have c2: "collect example_platform later_invocation [example_entry] [JStr (js ''66389231b7e4'')] []
     = ([JStr (js ''66389231b7e4'')], [])"
    by (simp add: example_entry_def example_platform_def hashUrl_def
      slice0_def example_digest_def js_def)
  have 1: "fst (snd (run example_platform later_invocation ?dk1)) = []"
    by (simp add: run_newArticles later(1) example_first_run_seen c2 del: collect.simps)
  have 2: "map_of (data_dir (fst (run example_platform later_invocation ?dk1))) seen_file
       = Some (Parsed (JObj [(js ''hashes'', JArr [JStr (js ''66389231b7e4'')]),
                             (js ''updated'', JStr (js ''2025-11-04T07:00:00.000Z''))]))"
    using run_seen_file [OF later(2), of example_platform ?dk1]
    by (simp add: later(1,3) example_first_run_seen c2 del: collect.simps)
  have 3: "map_of (data_dir ?dk1) seen_file
       = Some (Parsed (JObj [(js ''hashes'', JArr [JStr (js ''66389231b7e4'')]),
                             (js ''updated'', JStr (js ''2025-11-03T07:00:00.000Z''))]))"
    using run_seen_file [OF example_invocation_fields(2), of example_platform empty_disk]
    by (simp add: example_invocation_fields(1) example_first_collect empty_disk_def loadSeen_def
        clock del: collect.simps)
  have 4: "data_dir (fst (run example_platform later_invocation ?dk1)) \<noteq> data_dir ?dk1"
  proof
    assume "data_dir (fst (run example_platform later_invocation ?dk1)) = data_dir ?dk1"
    with 2 3 have "js ''2025-11-04T07:00:00.000Z'' = js ''2025-11-03T07:00:00.000Z''" by simp
    then show False by (simp add: js_def)
  qed
  from 1 2 3 4 show ?thesis by blast
qed

text \<open>
  C7, amended.  When a run is followed by a second run in the same mode (both dry, or
  both writing) that accepts no new item, the second run leaves the pages as they were,
  the persisted fingerprint set as it was, and every file of the data directory as it
  was but for the \<open>updated\<close> time of the fingerprint file and of the index.
\<close>

theorem run_twice_same:
  assumes "run P iv dk = (dk1, new1, err1)"
    and "run P iv2 dk1 = (dk2, [], err2)"
    and "dryRun iv2 = dryRun iv"
  shows "output_dir dk2 = output_dir dk1
    \<and> map (\<lambda>(g, x). (g, without_updated x)) (data_dir dk2)
        = map (\<lambda>(g, x). (g, without_updated x)) (data_dir dk1)
    \<and> loadSeen (data_dir dk2) seen_file = loadSeen (data_dir dk1) seen_file"
proof (cases "dryRun iv")
  case True
  then have "dk2 = dk1" using assms(2,3) run_dry [of iv2 P dk1] by simp
  then show ?thesis by simp
next
  case False
  have 1: "dk1 = fst (run P iv dk)" using assms(1) by simp
  have 2: "dk2 = fst (run P iv2 (fst (run P iv dk)))" using assms(2) 1 by simp
  have 3: "fst (snd (run P iv2 (fst (run P iv dk)))) = []" using assms(2) 1 by simp
  show ?thesis
    unfolding 1 2 using run_twice [OF False _ 3] False assms(3) by simp
qed

theorem run_twice_same_witness:
  "map (\<lambda>(g, x). (g, without_updated x))
     (data_dir (fst (run example_platform later_invocation
                       (fst (run example_platform example_invocation empty_disk)))))
   = map (\<lambda>(g, x). (g, without_updated x))
       (data_dir (fst (run example_platform example_invocation empty_disk)))
   \<and> loadSeen (data_dir (fst (run example_platform later_invocation
                       (fst (run example_platform example_invocation empty_disk))))) seen_file
      = [JStr (js ''66389231b7e4'')]"
proof -
  let ?r1 = "run example_platform example_invocation empty_disk"
  let ?r2 = "run example_platform later_invocation (fst ?r1)"
  have later: "allEntries later_invocation = [example_entry]"
      "dryRun later_invocation = dryRun example_invocation"
    by (simp_all add: later_invocation_def example_invocation_def)
  have c2: "collect example_platform later_invocation [example_entry] [JStr (js ''66389231b7e4'')] []
     = ([JStr (js ''66389231b7e4'')], [])"
    by (simp add: example_entry_def example_platform_def hashUrl_def
      slice0_def example_digest_def js_def)
  have "fst (snd ?r2) = []"
    by (simp add: run_newArticles later(1) example_first_run_seen c2 del: collect.simps)
  then have 2: "?r2 = (fst ?r2, [], snd (snd ?r2))"
    by (metis prod.collapse)
  have 1: "?r1 = (fst ?r1, fst (snd ?r1), snd (snd ?r1))" by simp
  from run_twice_same [OF 1 2 later(2)] example_first_run_seen show ?thesis by simp
qed

end
